theory Spec2Isabelle
  imports Main
begin

section \<open>Strings and the path helpers of the Go standard library\<close>

text \<open>
  A Go string is a sequence of bytes; it is modelled as \<^typ>\<open>string\<close>, a list of
  8-bit characters. The functions of this section are the library functions that
  \<^verbatim>\<open>fs.go\<close> calls (\<^verbatim>\<open>fs.ValidPath\<close>, \<^verbatim>\<open>path.Clean\<close>, \<^verbatim>\<open>path.Join\<close>,
  \<^verbatim>\<open>path.Base\<close>, \<^verbatim>\<open>strings.Trim\<close>, \<^verbatim>\<open>strings.Split\<close>), written after their
  Go sources, loop by loop.
\<close>

abbreviation slash :: char where
  "slash \<equiv> CHR ''/''"

abbreviation dot :: char where
  "dot \<equiv> CHR ''.''"

subsection \<open>utf8.ValidString\<close>

definition cont_byte :: "char \<Rightarrow> bool" where
  "cont_byte c = (0x80 \<le> (of_char c :: nat) \<and> (of_char c :: nat) \<le> 0xBF)"

definition byte_in :: "nat \<Rightarrow> nat \<Rightarrow> char \<Rightarrow> bool" where
  "byte_in lo hi c = (lo \<le> (of_char c :: nat) \<and> (of_char c :: nat) \<le> hi)"

text \<open>
  The accepted byte sequences of \<^verbatim>\<open>utf8.ValidString\<close>: one ASCII byte, or a leading
  byte \<open>C2..F4\<close> followed by the continuation bytes its range table asks for (the
  second byte is restricted after \<open>E0\<close>, \<open>ED\<close>, \<open>F0\<close> and \<open>F4\<close>).
\<close>

fun utf8_ValidString :: "string \<Rightarrow> bool" where
  "utf8_ValidString [] = True"
| "utf8_ValidString (c # cs) =
     (if byte_in 0x00 0x7F c then utf8_ValidString cs
      else if byte_in 0xC2 0xDF c then
        (case cs of
           c1 # r \<Rightarrow> cont_byte c1 \<and> utf8_ValidString r
         | _ \<Rightarrow> False)
      else if byte_in 0xE0 0xEF c then
        (case cs of
           c1 # c2 # r \<Rightarrow>
             (if c = CHR 0xE0 then byte_in 0xA0 0xBF c1
              else if c = CHR 0xED then byte_in 0x80 0x9F c1
              else cont_byte c1)
             \<and> cont_byte c2 \<and> utf8_ValidString r
         | _ \<Rightarrow> False)
      else if byte_in 0xF0 0xF4 c then
        (case cs of
           c1 # c2 # c3 # r \<Rightarrow>
             (if c = CHR 0xF0 then byte_in 0x90 0xBF c1
              else if c = CHR 0xF4 then byte_in 0x80 0x8F c1
              else cont_byte c1)
             \<and> cont_byte c2 \<and> cont_byte c3 \<and> utf8_ValidString r
         | _ \<Rightarrow> False)
      else False)"

subsection \<open>fs.ValidPath\<close>

text \<open>
  The element loop of \<^verbatim>\<open>fs.ValidPath\<close>: \<open>elem\<close> is the text before the first slash;
  an empty element, \<open>.\<close> and \<open>..\<close> are refused; the loop ends at the last element.
\<close>

function validElems :: "string \<Rightarrow> bool" where
  "validElems name =
     (let elem = takeWhile (\<lambda>c. c \<noteq> slash) name in
      if elem = '''' \<or> elem = ''.'' \<or> elem = ''..'' then False
      else if length elem = length name then True
      else validElems (drop (length elem + 1) name))"
  by pat_completeness auto
termination
proof (relation "measure length")
  fix name elem :: string
  assume "elem = takeWhile (\<lambda>c. c \<noteq> slash) name"
    and "\<not> (elem = '''' \<or> elem = ''.'' \<or> elem = ''..'')"
  then have "name \<noteq> []" by (cases name) simp_all
  then show "(drop (length elem + 1) name, name) \<in> measure length"
    by (cases name) simp_all
qed simp

declare validElems.simps [simp del]

definition ValidPath :: "string \<Rightarrow> bool" where
  "ValidPath name =
     (if \<not> utf8_ValidString name then False
      else if name = ''.'' then True
      else validElems name)"

subsection \<open>strings.Trim and strings.Split\<close>

text \<open>\<^verbatim>\<open>strings.Trim(s, "/")\<close>: all leading and trailing slashes removed.\<close>

definition Trim :: "string \<Rightarrow> string" where
  "Trim s = dropWhile (\<lambda>c. c = slash) (rev (dropWhile (\<lambda>c. c = slash) (rev s)))"

text \<open>
  \<^verbatim>\<open>strings.Split(s, "/")\<close>: the pieces between the slashes; a string without a
  slash (also the empty one) is the only piece.
\<close>

function Split :: "string \<Rightarrow> string list" where
  "Split s =
     (if slash \<in> set s
      then takeWhile (\<lambda>c. c \<noteq> slash) s # Split (tl (dropWhile (\<lambda>c. c \<noteq> slash) s))
      else [s])"
  by pat_completeness auto
termination
proof (relation "measure length")
  fix s :: string
  assume "slash \<in> set s"
  then have "dropWhile (\<lambda>c. c \<noteq> slash) s \<noteq> []"
    by (simp add: dropWhile_eq_Nil_conv)
  moreover have "length (dropWhile (\<lambda>c. c \<noteq> slash) s) \<le> length s"
    by (rule length_dropWhile_le)
  ultimately show "(tl (dropWhile (\<lambda>c. c \<noteq> slash) s), s) \<in> measure length"
    by (cases "dropWhile (\<lambda>c. c \<noteq> slash) s") auto
qed simp

declare Split.simps [simp del]

subsection \<open>path.Clean, path.Join, path.Base\<close>

text \<open>
  \<^verbatim>\<open>path.Clean\<close> writes into a buffer \<open>out\<close> whose length is the write index
  \<open>out.w\<close>. On a \<open>..\<close> element it moves \<open>out.w\<close> back to the last slash, but not
  below \<open>dotdot\<close>: \<open>backtrack\<close> is that inner loop, started after the first
  decrement.
\<close>

function backtrack :: "string \<Rightarrow> nat \<Rightarrow> nat \<Rightarrow> nat" where
  "backtrack out w dotdot =
     (if w > dotdot \<and> out ! w \<noteq> slash then backtrack out (w - 1) dotdot else w)"
  by pat_completeness auto
termination
  by (relation "measure (\<lambda>(out, w, dotdot). w)") auto

declare backtrack.simps [simp del]

text \<open>
  The main loop of \<^verbatim>\<open>path.Clean\<close>, on the unread rest of the path. The four
  cases are those of the source's \<^verbatim>\<open>switch\<close>, in its order: an empty element, a
  \<open>.\<close> element, a \<open>..\<close> element, a real element.
\<close>

function clean_loop :: "bool \<Rightarrow> string \<Rightarrow> string \<Rightarrow> nat \<Rightarrow> string" where
  "clean_loop rooted [] out dotdot = out"
| "clean_loop rooted (c # cs) out dotdot =
     (if c = slash then clean_loop rooted cs out dotdot
      else if c = dot \<and> (cs = [] \<or> hd cs = slash) then clean_loop rooted cs out dotdot
      else if c = dot \<and> hd cs = dot \<and> (tl cs = [] \<or> hd (tl cs) = slash) then
        (if length out > dotdot then
           clean_loop rooted (tl cs)
             (take (backtrack out (length out - 1) dotdot) out) dotdot
         else if \<not> rooted then
           (let out' = (if length out > 0 then out @ ''/'' else out) @ ''..''
            in clean_loop rooted (tl cs) out' (length out'))
         else clean_loop rooted (tl cs) out dotdot)
      else
        (let out' = (if rooted \<and> length out \<noteq> 1 \<or> \<not> rooted \<and> length out \<noteq> 0
                     then out @ ''/'' else out)
         in clean_loop rooted (dropWhile (\<lambda>x. x \<noteq> slash) cs)
              (out' @ c # takeWhile (\<lambda>x. x \<noteq> slash) cs) dotdot))"
  by pat_completeness auto
termination
  apply (relation "measure (\<lambda>(rooted, rest, out, dotdot). length rest)")
  apply (simp_all only: in_measure prod.case wf_measure length_tl list.size)
  apply (simp_all only: add_Suc_right add_0_right less_Suc_eq_le length_dropWhile_le
      diff_le_self le_refl One_nat_def)
  done

declare clean_loop.simps [simp del]

definition Clean :: "string \<Rightarrow> string" where
  "Clean p =
     (if p = '''' then ''.''
      else
        let rooted = (hd p = slash);
            out = (if rooted then clean_loop True (tl p) ''/'' 1
                   else clean_loop False p '''' 0)
        in if length out = 0 then ''.'' else out)"

text \<open>
  \<^verbatim>\<open>path.Join\<close>: nothing for elements that are all empty; otherwise the elements
  from the first non-empty one on, separated by slashes, cleaned.
\<close>

fun join_buf :: "string \<Rightarrow> string list \<Rightarrow> string" where
  "join_buf buf [] = buf"
| "join_buf buf (e # es) =
     (if length buf > 0 \<or> e \<noteq> ''''
      then join_buf ((if length buf > 0 then buf @ ''/'' else buf) @ e) es
      else join_buf buf es)"

definition Join :: "string list \<Rightarrow> string" where
  "Join elem =
     (if sum_list (map length elem) = 0 then ''''
      else Clean (join_buf '''' elem))"

text \<open>
  \<^verbatim>\<open>path.Base\<close>: the last element of the path, after the trailing slashes are
  stripped; \<open>.\<close> for the empty path, \<open>/\<close> for a path of slashes only.
\<close>

definition Base :: "string \<Rightarrow> string" where
  "Base p =
     (if p = '''' then ''.''
      else
        let p1 = rev (dropWhile (\<lambda>c. c = slash) (rev p));
            p2 = (if slash \<in> set p1
                  then rev (takeWhile (\<lambda>c. c \<noteq> slash) (rev p1)) else p1)
        in if p2 = '''' then ''/'' else p2)"

section \<open>Errors\<close>

text \<open>
  A Go \<^verbatim>\<open>error\<close> value. \<open>ErrInvalid\<close>, \<open>ErrPermission\<close> and \<open>ErrNotExist\<close> are the
  sentinels of \<^verbatim>\<open>io/fs\<close>, \<open>EOF\<close> is \<^verbatim>\<open>io.EOF\<close>, \<open>errorString\<close> is what
  \<^verbatim>\<open>errors.New\<close> returns, \<open>PathError\<close> is \<^verbatim>\<open>fs.PathError\<close> with its fields Op, Path
  and Err, \<open>ErrorResponse\<close> is a \<^verbatim>\<open>*github.ErrorResponse\<close> with the status code of its
  HTTP response (the client never builds one without a response), \<open>wrapError\<close> is an error that wraps another one (it has an
  \<^verbatim>\<open>Unwrap\<close> method), and \<open>otherError\<close> is any error of another type. The interface
  value \<^verbatim>\<open>nil\<close> is \<open>None\<close> of \<^typ>\<open>'a option\<close>.
\<close>

datatype error =
    ErrInvalid
  | ErrPermission
  | ErrNotExist
  | EOF
  | errorString string
  | PathError (Op: string) (Path: string) (Err: error)
  | ErrorResponse (StatusCode: int)
  | wrapError string error
  | otherError string

text \<open>
  \<^verbatim>\<open>errors.As(err, &gherr)\<close> for a target of type \<^verbatim>\<open>*github.ErrorResponse\<close>: the first
  error of that type on the \<^verbatim>\<open>Unwrap\<close> chain of \<open>err\<close>; the result is its status code.
\<close>

fun errors_As :: "error \<Rightarrow> int option" where
  "errors_As (ErrorResponse code) = Some code"
| "errors_As (PathError op' p e) = errors_As e"
| "errors_As (wrapError msg e) = errors_As e"
| "errors_As e = None"

text \<open>
  \<^verbatim>\<open>errors.Is(err, target)\<close> for a sentinel \<open>target\<close>: \<open>err\<close> or an error on its
  \<^verbatim>\<open>Unwrap\<close> chain is the target. It is how a caller classifies an error as
  not-found (\<open>ErrNotExist\<close>), permission (\<open>ErrPermission\<close>) or invalid (\<open>ErrInvalid\<close>).
  The sentinels are constructors of their own: no error made by \<^verbatim>\<open>errors.New\<close> in
  this package is one of them.
\<close>

fun errors_Is :: "error \<Rightarrow> error \<Rightarrow> bool" where
  "errors_Is (PathError op' p e) target =
     (PathError op' p e = target \<or> errors_Is e target)"
| "errors_Is (wrapError msg e) target = (wrapError msg e = target \<or> errors_Is e target)"
| "errors_Is e target = (e = target)"

text \<open>
  A call either returns or panics. A function with the Go result \<^verbatim>\<open>(T, error)\<close> returns
  a value of \<^typ>\<open>error + 'a\<close>: \<open>Inl\<close> is the error with a nil \<open>T\<close>, \<open>Inr\<close> is the value
  with a nil error.
\<close>

datatype 'a outcome = Panic string | Return 'a

definition handleErr :: "error option \<Rightarrow> string \<Rightarrow> string \<Rightarrow> error option" where
  "handleErr err op' p =
     (case (case err of None \<Rightarrow> None | Some e \<Rightarrow> errors_As e) of
        Some code \<Rightarrow>
          (if code = 404 then Some (PathError op' p ErrNotExist)
           else if code = 403 \<or> code = 401 then Some (PathError op' p ErrPermission)
           else err)
      | None \<Rightarrow> (if err \<noteq> None then err else None))"

section \<open>References\<close>

record ref =
  owner :: string
  repo :: string
  path :: string

definition join :: "ref \<Rightarrow> string \<Rightarrow> ref" where
  "join r name =
     (if owner r \<noteq> '''' \<and> repo r \<noteq> '''' then r\<lparr>path := Join [path r, name]\<rparr>
      else
        let segments = (if name = '''' \<or> name = ''.'' then []
                        else Split (Trim (Clean name)));
            i = (0::nat);
            (r, i) = (if owner r = '''' \<and> length segments > i
                      then (r\<lparr>owner := segments ! i\<rparr>, i + 1) else (r, i));
            (r, i) = (if repo r = '''' \<and> length segments > i
                      then (r\<lparr>repo := segments ! i\<rparr>, i + 1) else (r, i))
        in if length segments > i
           then r\<lparr>path := Join [path r, Join (drop i segments)]\<rparr>
           else r)"

definition validate :: "ref \<Rightarrow> string \<Rightarrow> error option outcome" where
  "validate r op' =
     (if (owner r = '''' \<and> repo r \<noteq> '''')
          \<or> ((owner r = '''' \<or> repo r = '''') \<and> path r \<noteq> '''')
      then Panic ''invalid ref: this should never happen''
      else if owner r = ''''
      then Return (Some (PathError op' '''' (errorString ''owner is missing'')))
      else if path r \<noteq> '''' \<and> \<not> ValidPath (path r)
      then Return (Some (PathError op' (path r) ErrInvalid))
      else Return None)"

definition ref_string :: "ref \<Rightarrow> string" where
  "ref_string r = Join [''/'', owner r, repo r, path r]"

section \<open>Files, directories and the directory cursor\<close>

text \<open>
  Sizes and the cursor are Go integers of 64 bits; they are modelled as \<^typ>\<open>int\<close>. The
  only arithmetic on them is \<open>len(entries) - offset\<close> and \<open>offset + count\<close>, with every
  value between 0 and the number of entries for a cursor that starts at 0.
\<close>

record dirEntry =
  e_name :: string
  e_isDir :: bool
  e_size :: int

record file_obj =
  f_name :: string
  f_size :: int
  f_content :: string

record dir =
  d_name :: string
  entries :: "dirEntry list"
  offset :: int

datatype File = FileOf file_obj | DirOf dir

text \<open>
  The copy loop of \<^verbatim>\<open>ReadDir\<close>: \<^verbatim>\<open>make\<close> panics on a negative length, and the read
  \<^verbatim>\<open>d.entries[d.offset+i]\<close> panics at \<open>i = 0\<close> on a negative offset.
\<close>

definition copy_entries :: "dir \<Rightarrow> int \<Rightarrow> dirEntry list outcome" where
  "copy_entries d count =
     (if count < 0 then Panic ''makeslice: len out of range''
      else if count > 0 \<and> offset d < 0 then Panic ''index out of range''
      else Return (map (\<lambda>i. entries d ! nat (offset d + int i)) [0..<nat count]))"

definition ReadDir :: "dir \<Rightarrow> int \<Rightarrow> ((dirEntry list \<times> error option) \<times> dir) outcome" where
  "ReadDir d n =
     (if n \<le> 0 then
        (let remaining = int (length (entries d)) - offset d in
         if remaining = 0 then Return (([], None), d)
         else
           (case copy_entries d remaining of
              Panic m \<Rightarrow> Panic m
            | Return es \<Rightarrow> Return ((es, None), d\<lparr>offset := int (length (entries d))\<rparr>)))
      else
        (let remaining = int (length (entries d)) - offset d in
         if remaining = 0 then Return (([], Some EOF), d)
         else
           (let count = min n remaining in
            case copy_entries d count of
              Panic m \<Rightarrow> Panic m
            | Return es \<Rightarrow>
                (let d' = d\<lparr>offset := offset d + count\<rparr> in
                 if offset d' \<ge> int (length (entries d')) \<and> n > count
                 then Return ((es, Some EOF), d')
                 else Return ((es, None), d')))))"

section \<open>The remote client\<close>

text \<open>
  The GitHub client is outside this package. Its two operations are functions on a
  remote state \<open>'s\<close>, so that an answer may depend on the calls made before; the
  objects they return are given by what their accessors (\<^verbatim>\<open>GetName\<close>, \<^verbatim>\<open>GetType\<close>,
  \<^verbatim>\<open>GetSize\<close>, \<^verbatim>\<open>GetContent\<close>) return. \<^verbatim>\<open>GetContent\<close> decodes the payload and can
  fail. The request contexts are passed through to the client and are not modelled.
\<close>

record ListOptions =
  Page :: int
  PerPage :: int

record Response =
  NextPage :: int

record Repository =
  repo_GetName :: string

record RepositoryContent =
  GetName :: string
  GetType :: string
  GetSize :: int
  GetContent :: "error + string"

record 's Client =
  ListByUser :: "string \<Rightarrow> ListOptions \<Rightarrow> 's
                 \<Rightarrow> (Repository list \<times> Response \<times> error option) \<times> 's"
  GetContents :: "string \<Rightarrow> string \<Rightarrow> string \<Rightarrow> 's
                  \<Rightarrow> (RepositoryContent option \<times> RepositoryContent list option
                       \<times> error option) \<times> 's"

text \<open>
  The world of a run is the remote state together with the list of the remote calls
  made so far, oldest first.
\<close>

datatype call =
    ListByUserCall string ListOptions
  | GetContentsCall string string string

type_synonym 's world = "'s \<times> call list"

definition call_ListByUser ::
  "'s Client \<Rightarrow> string \<Rightarrow> ListOptions \<Rightarrow> 's world
   \<Rightarrow> (Repository list \<times> Response \<times> error option) \<times> 's world" where
  "call_ListByUser c own opts w =
     (case ListByUser c own opts (fst w) of
        (res, s') \<Rightarrow> (res, (s', snd w @ [ListByUserCall own opts])))"

definition call_GetContents ::
  "'s Client \<Rightarrow> string \<Rightarrow> string \<Rightarrow> string \<Rightarrow> 's world
   \<Rightarrow> (RepositoryContent option \<times> RepositoryContent list option \<times> error option)
      \<times> 's world" where
  "call_GetContents c own rp p w =
     (case GetContents c own rp p (fst w) of
        (res, s') \<Rightarrow> (res, (s', snd w @ [GetContentsCall own rp p])))"

section \<open>The filesystem\<close>

text \<open>
  Of the fields of \<^verbatim>\<open>fsys\<close> the reference and the client are kept; \<^verbatim>\<open>ctx\<close> and
  \<^verbatim>\<open>ctxFn\<close> only make the context of a remote call, so \<^verbatim>\<open>WithContext\<close> and
  \<^verbatim>\<open>WithContextFunc\<close> leave the modelled handle as it is. A nil client is \<open>None\<close>.
\<close>

record 's fsys =
  ref :: ref
  client :: "'s Client option"

datatype 's Option =
    WithOwner string
  | WithRepository string string
  | WithClient "'s Client option"
  | WithContext
  | WithContextFunc
  | options "'s Option list"

fun apply_opt :: "'s Option \<Rightarrow> 's fsys \<Rightarrow> 's fsys" where
  "apply_opt (WithOwner own) f =
     (if own = '''' then f else f\<lparr>ref := (ref f)\<lparr>owner := own\<rparr>\<rparr>)"
| "apply_opt (WithRepository own rp) f =
     (let f = (if own \<noteq> '''' then f\<lparr>ref := (ref f)\<lparr>owner := own\<rparr>\<rparr> else f)
      in if rp \<noteq> '''' then f\<lparr>ref := (ref f)\<lparr>repo := rp\<rparr>\<rparr> else f)"
| "apply_opt (WithClient c) f = f\<lparr>client := c\<rparr>"
| "apply_opt WithContext f = f"
| "apply_opt WithContextFunc f = f"
| "apply_opt (options os) f = fold apply_opt os f"

text \<open>
  \<^verbatim>\<open>New\<close> starts from the zero value of \<^verbatim>\<open>fsys\<close>, applies the options in order and
  puts \<^verbatim>\<open>github.NewClient(nil)\<close>, here the parameter \<open>NewClient\<close>, in place of a nil
  client.
\<close>

definition New :: "'s Client \<Rightarrow> 's Option list \<Rightarrow> 's fsys" where
  "New NewClient opts =
     (let f = fold apply_opt opts
                \<lparr>ref = \<lparr>owner = '''', repo = '''', path = ''''\<rparr>, client = None\<rparr>
      in if client f = None then f\<lparr>client := Some NewClient\<rparr> else f)"

definition clone :: "'s fsys \<Rightarrow> ref \<Rightarrow> 's fsys" where
  "clone f r = \<lparr>ref = r, client = client f\<rparr>"

text \<open>
  The page loop of \<^verbatim>\<open>listRepositories\<close>. It ends when a page comes with an error or
  with \<open>NextPage = 0\<close>; a remote that always names a next page keeps it running, and
  then the function has no result (\<open>None\<close>).
\<close>

partial_function (option) listRepositories_loop ::
  "'s Client \<Rightarrow> string \<Rightarrow> ListOptions \<Rightarrow> Repository list \<Rightarrow> 's world
   \<Rightarrow> ((error + Repository list) \<times> 's world) option" where
  "listRepositories_loop c own opts allRepos w =
     (case call_ListByUser c own opts w of
        ((repos, resp, err), w') \<Rightarrow>
          (case handleErr err ''open'' (''/'' @ own) of
             Some e \<Rightarrow> Some (Inl e, w')
           | None \<Rightarrow>
               (let allRepos = allRepos @ repos in
                if NextPage resp = 0 then Some (Inr allRepos, w')
                else listRepositories_loop c own (opts\<lparr>Page := NextPage resp\<rparr>)
                       allRepos w')))"

declare listRepositories_loop.simps [code]

definition listRepositories ::
  "'s fsys \<Rightarrow> string \<Rightarrow> 's world \<Rightarrow> ((error + File) outcome \<times> 's world) option" where
  "listRepositories f own w =
     (case client f of
        None \<Rightarrow> Some (Panic ''nil pointer dereference'', w)
      | Some c \<Rightarrow>
          (case listRepositories_loop c own \<lparr>Page = 0, PerPage = 100\<rparr> [] w of
             None \<Rightarrow> None
           | Some (Inl e, w') \<Rightarrow> Some (Return (Inl e), w')
           | Some (Inr allRepos, w') \<Rightarrow>
               Some (Return (Inr (DirOf
                 \<lparr>d_name = own,
                  entries = map (\<lambda>rp. \<lparr>e_name = repo_GetName rp, e_isDir = True,
                                         e_size = 0\<rparr>) allRepos,
                  offset = 0\<rparr>)), w')))"

definition getRepoContent ::
  "'s fsys \<Rightarrow> ref \<Rightarrow> 's world \<Rightarrow> (error + File) outcome \<times> 's world" where
  "getRepoContent f r w =
     (case client f of
        None \<Rightarrow> (Panic ''nil pointer dereference'', w)
      | Some c \<Rightarrow>
          (case call_GetContents c (owner r) (repo r) (path r) w of
             ((fileContent, dirContent, err), w') \<Rightarrow>
               (case handleErr err ''open'' (ref_string r) of
                  Some e \<Rightarrow> (Return (Inl e), w')
                | None \<Rightarrow>
                    (case fileContent of
                       Some fc \<Rightarrow>
                         (case GetContent fc of
                            Inl e \<Rightarrow> (Return (Inl e), w')
                          | Inr content \<Rightarrow>
                              (Return (Inr (FileOf
                                 \<lparr>f_name = GetName fc, f_size = GetSize fc,
                                  f_content = content\<rparr>)), w'))
                     | None \<Rightarrow>
                         (case dirContent of
                            Some items \<Rightarrow>
                              (Return (Inr (DirOf
                                 \<lparr>d_name = Base (ref_string r),
                                  entries = map (\<lambda>content.
                                      \<lparr>e_name = GetName content,
                                       e_isDir = (GetType content = ''dir''),
                                       e_size = GetSize content\<rparr>) items,
                                  offset = 0\<rparr>)), w')
                          | None \<Rightarrow>
                              (Return (Inl (errorString
                                 ''invalid response: no file or directory returned'')),
                               w'))))))"

definition Open ::
  "'s fsys \<Rightarrow> string \<Rightarrow> 's world \<Rightarrow> ((error + File) outcome \<times> 's world) option" where
  "Open f name w =
     (if \<not> ValidPath name
      then Some (Return (Inl (PathError ''open'' name ErrInvalid)), w)
      else
        (let r = join (ref f) name in
         case validate r ''open'' of
           Panic m \<Rightarrow> Some (Panic m, w)
         | Return (Some err) \<Rightarrow> Some (Return (Inl err), w)
         | Return None \<Rightarrow>
             (if repo r = '''' then listRepositories f (owner r) w
              else Some (getRepoContent f r w))))"

definition Sub :: "'s fsys \<Rightarrow> string \<Rightarrow> error + 's fsys" where
  "Sub f dir' =
     (if \<not> ValidPath dir' then Inl (PathError ''sub'' dir' ErrInvalid)
      else Inr (clone f (join (ref f) dir')))"

section \<open>Notions of the specification\<close>

text \<open>
  A real path element, as \<^verbatim>\<open>fs.ValidPath\<close> and \<^verbatim>\<open>path.Clean\<close> see it: not empty,
  not \<open>.\<close>, not \<open>..\<close>, without a slash.
\<close>

definition valid_elem :: "string \<Rightarrow> bool" where
  "valid_elem e = (e \<noteq> '''' \<and> e \<noteq> ''.'' \<and> e \<noteq> ''..'' \<and> slash \<notin> set e)"

text \<open>The elements of a list, with a slash between two neighbours.\<close>

fun slash_join :: "string list \<Rightarrow> string" where
  "slash_join [] = ''''"
| "slash_join [s] = s"
| "slash_join (s # t # ts) = s @ ''/'' @ slash_join (t # ts)"

text \<open>
  The invariant of a reference (section 3 of the specification): a repository needs an
  owner, a path needs both.
\<close>

definition ref_inv :: "ref \<Rightarrow> bool" where
  "ref_inv r =
     ((repo r = '''' \<or> owner r \<noteq> '''')
      \<and> (path r = '''' \<or> (owner r \<noteq> '''' \<and> repo r \<noteq> '''')))"

text \<open>
  The segment-consumption rule of the specification (section 4.1), for a base that
  does not pin both owner and repository: the first segment fills the owner when the
  base has none, the next one fills the repository when the base has none and the
  owner is now set, and the segments that remain, if any, are joined into the path.
\<close>

definition consume_spec :: "ref \<Rightarrow> string list \<Rightarrow> ref" where
  "consume_spec r segs =
     (let (r1, s1) = (case segs of
                        x # xs \<Rightarrow> if owner r = '''' then (r\<lparr>owner := x\<rparr>, xs) else (r, segs)
                      | [] \<Rightarrow> (r, []));
          (r2, s2) = (case s1 of
                        x # xs \<Rightarrow> if repo r1 = '''' \<and> owner r1 \<noteq> ''''
                                  then (r1\<lparr>repo := x\<rparr>, xs) else (r1, s1)
                      | [] \<Rightarrow> (r1, []))
      in if s2 = [] then r2 else r2\<lparr>path := slash_join s2\<rparr>)"

text \<open>
  A caller that reads a directory in chunks: \<^verbatim>\<open>ReadDir(n)\<close> again and again, up to
  and with the call that returns the end-of-directory signal. The result is the list
  of the chunks read, each with its error. With \<open>n \<le> 0\<close> the signal never
  comes and the loop has no result.
\<close>

partial_function (option) read_until_EOF ::
  "dir \<Rightarrow> int \<Rightarrow> (dirEntry list \<times> error option) list outcome option" where
  "read_until_EOF d n =
     (case ReadDir d n of
        Panic m \<Rightarrow> Some (Panic m)
      | Return ((es, err), d') \<Rightarrow>
          (if err \<noteq> None then Some (Return [(es, err)])
           else
             Option.bind (read_until_EOF d' n)
               (\<lambda>rest. case rest of
                    Panic m \<Rightarrow> Some (Panic m)
                  | Return chunks \<Rightarrow> Some (Return ((es, err) # chunks)))))"

declare read_until_EOF.simps [code]

text \<open>
  The chunks the specification expects for a list of entries and a chunk size
  \<open>n > 0\<close>: chunks of \<open>n\<close> entries without a signal, then the rest, shorter than
  \<open>n\<close> and possibly empty, with the signal.
\<close>

function chunks_spec :: "nat \<Rightarrow> dirEntry list \<Rightarrow> (dirEntry list \<times> error option) list" where
  "chunks_spec n es =
     (if n = 0 \<or> length es < n then [(es, Some EOF)]
      else (take n es, None) # chunks_spec n (drop n es))"
  by pat_completeness auto
termination
  by (relation "measure (\<lambda>(n, es). length es)") auto

declare chunks_spec.simps [simp del]

text \<open>
  A finite run of the remote's pages for an owner, from the page of \<open>opts\<close> on: every
  page comes without an error, each names the next one, and the last one names none.
  \<open>page_run c own opts w repos w'\<close> holds when the run starts in the world \<open>w\<close>,
  ends in \<open>w'\<close> and its pages hold \<open>repos\<close>, in order.
\<close>

inductive page_run ::
  "'s Client \<Rightarrow> string \<Rightarrow> ListOptions \<Rightarrow> 's world \<Rightarrow> Repository list \<Rightarrow> 's world \<Rightarrow> bool"
  for c :: "'s Client" and own :: string where
  last_page:
    "call_ListByUser c own opts w = ((repos, resp, None), w') \<Longrightarrow> NextPage resp = 0
     \<Longrightarrow> page_run c own opts w repos w'"
| next_page:
    "call_ListByUser c own opts w = ((repos, resp, None), w') \<Longrightarrow> NextPage resp \<noteq> 0
     \<Longrightarrow> page_run c own (opts\<lparr>Page := NextPage resp\<rparr>) w' rest w''
     \<Longrightarrow> page_run c own opts w (repos @ rest) w''"

code_pred page_run .

text \<open>
  The handles a program can hold: those that \<^verbatim>\<open>New\<close> builds, and those that \<^verbatim>\<open>Sub\<close>
  derives from them.
\<close>

inductive_set handles :: "'s fsys set" where
  handle_New: "New NewClient opts \<in> handles"
| handle_Sub: "f \<in> handles \<Longrightarrow> Sub f dir' = Inr f' \<Longrightarrow> f' \<in> handles"

code_pred handlesp .

text \<open>A path is only set on a reference that has an owner and a repository.\<close>

definition path_ok :: "ref \<Rightarrow> bool" where
  "path_ok r = (path r = '''' \<or> (owner r \<noteq> '''' \<and> repo r \<noteq> ''''))"

section \<open>An auxiliary function for the proofs\<close>

text \<open>
  What \<^verbatim>\<open>path.Clean\<close> writes for a list of real elements: each one after a slash,
  but for the first one of a relative path and the first one after the root.
\<close>

fun emit :: "bool \<Rightarrow> string \<Rightarrow> string list \<Rightarrow> string" where
  "emit rooted out [] = out"
| "emit rooted out (g # gs) =
     emit rooted
       ((if rooted \<and> length out \<noteq> 1 \<or> \<not> rooted \<and> length out \<noteq> 0
         then out @ ''/'' else out) @ g) gs"

section \<open>A remote for the examples\<close>

text \<open>
  A small remote without state, for the closed instances below: the account \<open>acct\<close>
  has three repositories, listed on two pages; the repository \<open>proj\<close> holds a
  directory \<open>docs\<close> with the file \<open>readme.md\<close>, and a file \<open>LICENSE\<close>. It also
  answers for a file \<open>big.bin\<close> of 2 MB, whose content comes with the encoding
  \<open>none\<close>, so that \<^verbatim>\<open>GetContent\<close> returns an error for it. Everything else is
  answered with status 404.
\<close>

definition example_client :: "unit Client" where
  "example_client =
     \<lparr>ListByUser = (\<lambda>own opts s.
        if own = ''acct'' then
          (if Page opts = 0
           then (([\<lparr>repo_GetName = ''proj''\<rparr>, \<lparr>repo_GetName = ''tool''\<rparr>],
                  \<lparr>NextPage = 2\<rparr>, None), s)
           else (([\<lparr>repo_GetName = ''site''\<rparr>], \<lparr>NextPage = 0\<rparr>, None), s))
        else (([], \<lparr>NextPage = 0\<rparr>, Some (ErrorResponse 404)), s)),
      GetContents = (\<lambda>own rp p s.
        if own = ''acct'' \<and> rp = ''proj'' \<and> p = ''docs/readme.md'' then
          ((Some \<lparr>GetName = ''readme.md'', GetType = ''file'', GetSize = 5,
                  GetContent = Inr ''hello''\<rparr>, None, None), s)
        else if own = ''acct'' \<and> rp = ''proj'' \<and> p = ''big.bin'' then
          ((Some \<lparr>GetName = ''big.bin'', GetType = ''file'', GetSize = 2097152,
                  GetContent = Inl (errorString ''unsupported content encoding: none'')\<rparr>,
            None, None), s)
        else if own = ''acct'' \<and> rp = ''proj'' \<and> (p = '''' \<or> p = ''.'') then
          ((None,
            Some [\<lparr>GetName = ''docs'', GetType = ''dir'', GetSize = 0,
                    GetContent = Inr ''''\<rparr>,
                  \<lparr>GetName = ''LICENSE'', GetType = ''file'', GetSize = 1071,
                    GetContent = Inr ''''\<rparr>],
            None), s)
        else ((None, None, Some (ErrorResponse 404)), s))\<rparr>"

definition example_world :: "unit world" where
  "example_world = ((), [])"

section \<open>Facts about the path helpers\<close>

text \<open>
  The models give the results that the tables of the Go library's own tests expect
  (\<^verbatim>\<open>path_test.go\<close>, \<^verbatim>\<open>fs_test.go\<close>, \<^verbatim>\<open>strings_test.go\<close>, \<^verbatim>\<open>utf8_test.go\<close>).
\<close>

lemma Clean_table:
  "Clean '''' = ''.''" "Clean ''abc'' = ''abc''" "Clean ''abc/def'' = ''abc/def''"
  "Clean ''.'' = ''.''" "Clean ''..'' = ''..''" "Clean ''../..'' = ''../..''"
  "Clean ''../../abc'' = ''../../abc''" "Clean ''/abc'' = ''/abc''" "Clean ''/'' = ''/''"
  "Clean ''abc/'' = ''abc''" "Clean ''a/b/c/'' = ''a/b/c''" "Clean ''./'' = ''.''"
  "Clean ''../../'' = ''../..''" "Clean ''/abc/'' = ''/abc''"
  "Clean ''abc//def//ghi'' = ''abc/def/ghi''" "Clean ''//abc'' = ''/abc''"
  "Clean ''//abc//'' = ''/abc''" "Clean ''abc/./def'' = ''abc/def''"
  "Clean ''/./abc/def'' = ''/abc/def''" "Clean ''abc/.'' = ''abc''"
  "Clean ''abc/def/ghi/../jkl'' = ''abc/def/jkl''"
  "Clean ''abc/def/../ghi/../jkl'' = ''abc/jkl''" "Clean ''abc/def/..'' = ''abc''"
  "Clean ''abc/def/../..'' = ''.''" "Clean ''/abc/def/../..'' = ''/''"
  "Clean ''abc/def/../../..'' = ''..''" "Clean ''/abc/def/../../..'' = ''/''"
  "Clean ''abc/def/../../../ghi/jkl/../../../mno'' = ''../../mno''"
  "Clean ''abc/./../def'' = ''def''" "Clean ''abc//./../def'' = ''def''"
  "Clean ''abc/../../././../def'' = ''../../def''"
  by code_simp+

lemma Join_table:
  "Join [] = ''''" "Join [''''] = ''''" "Join [''a''] = ''a''" "Join [''a'', ''b''] = ''a/b''"
  "Join [''a'', ''''] = ''a''" "Join ['''', ''b''] = ''b''" "Join [''/'', ''a''] = ''/a''"
  "Join [''/'', ''''] = ''/''" "Join [''a/'', ''b''] = ''a/b''" "Join [''a/'', ''''] = ''a''"
  "Join ['''', ''''] = ''''"
  by code_simp+

lemma Base_table:
  "Base '''' = ''.''" "Base ''.'' = ''.''" "Base ''/.'' = ''.''" "Base ''/'' = ''/''"
  "Base ''////'' = ''/''" "Base ''x/'' = ''x''" "Base ''abc'' = ''abc''"
  "Base ''abc/def'' = ''def''" "Base ''a/b/.x'' = ''.x''" "Base ''a/b/c.'' = ''c.''"
  "Base ''a/b/c.x'' = ''c.x''"
  by code_simp+

lemma ValidPath_table:
  "ValidPath ''.''" "ValidPath ''x''" "ValidPath ''x/y''"
  "\<not> ValidPath ''''" "\<not> ValidPath ''..''" "\<not> ValidPath ''/''" "\<not> ValidPath ''x/''"
  "\<not> ValidPath ''/x''" "\<not> ValidPath ''x/y/''" "\<not> ValidPath ''/x/y''"
  "\<not> ValidPath ''./''" "\<not> ValidPath ''./x''" "\<not> ValidPath ''x/.''"
  "\<not> ValidPath ''x/./y''" "\<not> ValidPath ''../''" "\<not> ValidPath ''../x''"
  "\<not> ValidPath ''x/..''" "\<not> ValidPath ''x/../y''" "\<not> ValidPath ''x//y''"
  "ValidPath ''x:y''" "\<not> ValidPath [CHR ''x'', CHR 0xFF]"
  by code_simp+

lemma Split_Trim_table:
  "Split '''' = ['''']" "Split ''a'' = [''a'']" "Split ''a/b/c'' = [''a'', ''b'', ''c'']"
  "Split ''/a'' = ['''', ''a'']" "Split ''a/'' = [''a'', '''']"
  "Split ''a//b'' = [''a'', '''', ''b'']"
  "Trim '''' = ''''" "Trim ''/'' = ''''" "Trim ''//a/b//'' = ''a/b''" "Trim ''a'' = ''a''"
  by code_simp+

lemma utf8_ValidString_table:
  "utf8_ValidString ''abc''" "utf8_ValidString [CHR 0xC3, CHR 0xA9]"
  "\<not> utf8_ValidString [CHR 0xC3]" "\<not> utf8_ValidString [CHR 0x80]"
  "\<not> utf8_ValidString [CHR 0xC0, CHR 0x80]"
  "utf8_ValidString [CHR 0xE0, CHR 0xA0, CHR 0x80]"
  "\<not> utf8_ValidString [CHR 0xE0, CHR 0x9F, CHR 0x80]"
  "utf8_ValidString [CHR 0xED, CHR 0x9F, CHR 0xBF]"
  "\<not> utf8_ValidString [CHR 0xED, CHR 0xA0, CHR 0x80]"
  "utf8_ValidString [CHR 0xF0, CHR 0x9F, CHR 0x98, CHR 0x80]"
  "utf8_ValidString [CHR 0xF4, CHR 0x8F, CHR 0xBF, CHR 0xBF]"
  "\<not> utf8_ValidString [CHR 0xF4, CHR 0x90, CHR 0x80, CHR 0x80]"
  "\<not> utf8_ValidString [CHR 0xF5, CHR 0x80, CHR 0x80, CHR 0x80]"
  by code_simp+

lemma slash_join_Cons: "ss \<noteq> [] \<Longrightarrow> slash_join (s # ss) = s @ ''/'' @ slash_join ss"
  by (cases ss) simp_all

lemma Split_noslash: "slash \<notin> set s \<Longrightarrow> Split s = [s]"
  by (subst Split.simps) simp

lemma takeWhile_to_slash: "slash \<notin> set s \<Longrightarrow> takeWhile (\<lambda>c. c \<noteq> slash) (s @ slash # t) = s"
  by (induction s) auto

lemma dropWhile_to_slash: "slash \<notin> set s \<Longrightarrow> dropWhile (\<lambda>c. c \<noteq> slash) (s @ slash # t) = slash # t"
  by (induction s) auto

lemma Split_slash: "slash \<notin> set s \<Longrightarrow> Split (s @ slash # t) = s # Split t"
proof -
  assume a: "slash \<notin> set s"
  then have tw: "takeWhile (\<lambda>c. c \<noteq> slash) (s @ slash # t) = s"
    by (rule takeWhile_to_slash)
  from a have dw: "dropWhile (\<lambda>c. c \<noteq> slash) (s @ slash # t) = slash # t"
    by (rule dropWhile_to_slash)
  show ?thesis
    by (subst Split.simps) (simp add: tw dw)
qed

lemma Split_nonempty: "Split s \<noteq> []"
  by (subst Split.simps) simp

lemma slash_join_Split: "slash_join (Split s) = s"
proof (induction s rule: Split.induct)
  case (1 s)
  show ?case
  proof (cases "slash \<in> set s")
    case True
    let ?t = "tl (dropWhile (\<lambda>c. c \<noteq> slash) s)"
    from True have "dropWhile (\<lambda>c. c \<noteq> slash) s \<noteq> []" by simp
    moreover have "hd (dropWhile (\<lambda>c. c \<noteq> slash) s) = slash"
      using True hd_dropWhile[of "\<lambda>c. c \<noteq> slash" s] by simp
    ultimately have dw: "dropWhile (\<lambda>c. c \<noteq> slash) s = slash # ?t"
      by (cases "dropWhile (\<lambda>c. c \<noteq> slash) s") simp_all
    have "s = takeWhile (\<lambda>c. c \<noteq> slash) s @ dropWhile (\<lambda>c. c \<noteq> slash) s" by simp
    then have s: "s = takeWhile (\<lambda>c. c \<noteq> slash) s @ slash # ?t" using dw by simp
    have "slash_join (Split s) = takeWhile (\<lambda>c. c \<noteq> slash) s @ ''/'' @ slash_join (Split ?t)"
      using True by (subst Split.simps) (simp add: slash_join_Cons Split_nonempty)
    also have "\<dots> = takeWhile (\<lambda>c. c \<noteq> slash) s @ slash # ?t"
      using "1.IH"[OF True] by simp
    finally show ?thesis using s by simp
  next
    case False
    then show ?thesis by (simp add: Split_noslash)
  qed
qed

lemma Split_elems_noslash: "e \<in> set (Split s) \<Longrightarrow> slash \<notin> set e"
proof (induction s rule: Split.induct)
  case (1 s)
  show ?case
  proof (cases "slash \<in> set s")
    case True
    from "1.prems" True
    have "e = takeWhile (\<lambda>c. c \<noteq> slash) s \<or> e \<in> set (Split (tl (dropWhile (\<lambda>c. c \<noteq> slash) s)))"
      by (subst (asm) Split.simps) simp
    then show ?thesis
    proof
      assume "e = takeWhile (\<lambda>c. c \<noteq> slash) s"
      then show ?thesis using set_takeWhileD[of slash "\<lambda>c. c \<noteq> slash" s] by auto
    next
      assume "e \<in> set (Split (tl (dropWhile (\<lambda>c. c \<noteq> slash) s)))"
      then show ?thesis using "1.IH"[OF True] by simp
    qed
  next
    case False
    with "1.prems" show ?thesis by (simp add: Split_noslash)
  qed
qed

lemma split_at_slash:
  assumes "slash \<in> set s"
  shows "s = takeWhile (\<lambda>c. c \<noteq> slash) s @ slash # tl (dropWhile (\<lambda>c. c \<noteq> slash) s)"
proof -
  from assms have "dropWhile (\<lambda>c. c \<noteq> slash) s \<noteq> []" by simp
  moreover have "hd (dropWhile (\<lambda>c. c \<noteq> slash) s) = slash"
    using assms hd_dropWhile[of "\<lambda>c. c \<noteq> slash" s] by simp
  ultimately have "dropWhile (\<lambda>c. c \<noteq> slash) s = slash # tl (dropWhile (\<lambda>c. c \<noteq> slash) s)"
    by (cases "dropWhile (\<lambda>c. c \<noteq> slash) s") simp_all
  moreover have "s = takeWhile (\<lambda>c. c \<noteq> slash) s @ dropWhile (\<lambda>c. c \<noteq> slash) s" by simp
  ultimately show ?thesis by simp
qed

lemma validElems_noslash:
  "slash \<notin> set s \<Longrightarrow> validElems s = (s \<noteq> '''' \<and> s \<noteq> ''.'' \<and> s \<noteq> ''..'')"
proof -
  assume "slash \<notin> set s"
  then have tw: "takeWhile (\<lambda>c. c \<noteq> slash) s = s" by (auto simp: takeWhile_eq_all_conv)
  show ?thesis by (subst validElems.simps) (simp only: tw Let_def, simp)
qed

lemma validElems_slash:
  assumes "slash \<notin> set e"
  shows "validElems (e @ slash # t)
         = (e \<noteq> '''' \<and> e \<noteq> ''.'' \<and> e \<noteq> ''..'' \<and> validElems t)"
proof -
  have tw: "takeWhile (\<lambda>c. c \<noteq> slash) (e @ slash # t) = e"
    using assms by (rule takeWhile_to_slash)
  show ?thesis
    by (subst validElems.simps) (simp add: tw Let_def)
qed

lemma validElems_Split:
  "validElems s = (\<forall>e \<in> set (Split s). e \<noteq> '''' \<and> e \<noteq> ''.'' \<and> e \<noteq> ''..'')"
proof (induction s rule: Split.induct)
  case (1 s)
  show ?case
  proof (cases "slash \<in> set s")
    case True
    let ?e = "takeWhile (\<lambda>c. c \<noteq> slash) s"
    let ?t = "tl (dropWhile (\<lambda>c. c \<noteq> slash) s)"
    have s: "s = ?e @ slash # ?t" using True by (rule split_at_slash)
    have e: "slash \<notin> set ?e" using set_takeWhileD[of slash "\<lambda>c. c \<noteq> slash" s] by auto
    have "validElems s = validElems (?e @ slash # ?t)" using s by simp
    also have "\<dots> = (?e \<noteq> '''' \<and> ?e \<noteq> ''.'' \<and> ?e \<noteq> ''..'' \<and> validElems ?t)"
      using e by (rule validElems_slash)
    also have "\<dots> = (\<forall>e \<in> set (?e # Split ?t). e \<noteq> '''' \<and> e \<noteq> ''.'' \<and> e \<noteq> ''..'')"
      using "1.IH"[OF True] by simp
    also have "?e # Split ?t = Split s"
      using True by (subst (2) Split.simps) simp
    finally show ?thesis .
  next
    case False
    then show ?thesis by (simp add: Split_noslash validElems_noslash)
  qed
qed

lemma valid_elem_Split:
  "validElems s \<Longrightarrow> e \<in> set (Split s) \<Longrightarrow> valid_elem e"
  by (simp add: validElems_Split valid_elem_def Split_elems_noslash)

lemma ValidPath_cases:
  "ValidPath name \<Longrightarrow> name = ''.'' \<or> validElems name"
  by (simp add: ValidPath_def split: if_splits)

lemma validElems_not_dot: "validElems s \<Longrightarrow> s \<noteq> ''.'' \<and> s \<noteq> ''''"
  by (subst (asm) validElems.simps) (auto simp: Let_def split: if_splits)

lemma clean_loop_slash:
  "clean_loop rooted (slash # rest) out dotdot = clean_loop rooted rest out dotdot"
  by (simp add: clean_loop.simps)

lemma clean_loop_dot:
  "rest = [] \<or> hd rest = slash
   \<Longrightarrow> clean_loop rooted (dot # rest) out dotdot = clean_loop rooted rest out dotdot"
  by (simp add: clean_loop.simps)

lemma takeWhile_elem:
  "slash \<notin> set s \<Longrightarrow> rest = [] \<or> hd rest = slash
   \<Longrightarrow> takeWhile (\<lambda>x. x \<noteq> slash) (s @ rest) = s"
  by (induction s) (cases rest; auto)+

lemma dropWhile_elem:
  "slash \<notin> set s \<Longrightarrow> rest = [] \<or> hd rest = slash
   \<Longrightarrow> dropWhile (\<lambda>x. x \<noteq> slash) (s @ rest) = rest"
  by (induction s) (cases rest; auto)+

lemma clean_loop_elem:
  assumes "valid_elem s" and "rest = [] \<or> hd rest = slash"
  shows "clean_loop rooted (s @ rest) out dotdot
         = clean_loop rooted rest
             ((if rooted \<and> length out \<noteq> 1 \<or> \<not> rooted \<and> length out \<noteq> 0
               then out @ ''/'' else out) @ s) dotdot"
proof -
  from assms(1) obtain c cs where s: "s = c # cs"
    by (cases s) (simp_all add: valid_elem_def)
  from assms(1) s have c: "c \<noteq> slash" and cs: "slash \<notin> set cs"
    by (auto simp: valid_elem_def)
  have no_dot: "\<not> (c = dot \<and> (cs @ rest = [] \<or> hd (cs @ rest) = slash))"
  proof
    assume a: "c = dot \<and> (cs @ rest = [] \<or> hd (cs @ rest) = slash)"
    with assms(1) s have "cs \<noteq> []" by (auto simp: valid_elem_def)
    with a cs show False by (cases cs) auto
  qed
  have no_dotdot: "\<not> (c = dot \<and> hd (cs @ rest) = dot
                       \<and> (tl (cs @ rest) = [] \<or> hd (tl (cs @ rest)) = slash))"
  proof
    assume a: "c = dot \<and> hd (cs @ rest) = dot
               \<and> (tl (cs @ rest) = [] \<or> hd (tl (cs @ rest)) = slash)"
    with assms(1) s have ne: "cs \<noteq> []" by (auto simp: valid_elem_def)
    then obtain c2 cs2 where cs2: "cs = c2 # cs2" by (cases cs) auto
    with a have "c2 = dot" by simp
    with assms(1) s cs2 a have "cs2 \<noteq> []" by (auto simp: valid_elem_def)
    with a cs cs2 show False by (cases cs2) auto
  qed
  have tw: "takeWhile (\<lambda>x. x \<noteq> slash) (cs @ rest) = cs"
    using cs assms(2) by (rule takeWhile_elem)
  have dw: "dropWhile (\<lambda>x. x \<noteq> slash) (cs @ rest) = rest"
    using cs assms(2) by (rule dropWhile_elem)
  have "clean_loop rooted (c # (cs @ rest)) out dotdot
        = clean_loop rooted rest
            ((if rooted \<and> length out \<noteq> 1 \<or> \<not> rooted \<and> length out \<noteq> 0
              then out @ ''/'' else out) @ c # cs) dotdot"
    by (subst clean_loop.simps) (simp only: c no_dot no_dotdot tw dw if_False Let_def)
  then show ?thesis using s by simp
qed

lemma clean_loop_segs:
  assumes "\<forall>s \<in> set segs. slash \<notin> set s \<and> s \<noteq> ''..''"
  shows "clean_loop rooted (slash_join segs) out dotdot
         = emit rooted out (filter (\<lambda>s. s \<noteq> '''' \<and> s \<noteq> ''.'') segs)"
  using assms
proof (induction segs arbitrary: out)
  case Nil
  then show ?case by (simp add: clean_loop.simps)
next
  case (Cons s ss)
  let ?rest = "if ss = [] then '''' else slash # slash_join ss"
  have sj: "slash_join (s # ss) = s @ ?rest"
    by (cases ss) simp_all
  have rest: "?rest = [] \<or> hd ?rest = slash" by simp
  have IH: "\<And>out. clean_loop rooted ?rest out dotdot
              = emit rooted out (filter (\<lambda>s. s \<noteq> '''' \<and> s \<noteq> ''.'') ss)"
  proof -
    fix out
    show "clean_loop rooted ?rest out dotdot
              = emit rooted out (filter (\<lambda>s. s \<noteq> '''' \<and> s \<noteq> ''.'') ss)"
    proof (cases "ss = []")
      case True
      then show ?thesis by (simp add: clean_loop.simps)
    next
      case False
      then show ?thesis using Cons.IH[of out] Cons.prems by (simp add: clean_loop_slash)
    qed
  qed
  consider "s = ''''" | "s = ''.''" | "valid_elem s"
    using Cons.prems by (auto simp: valid_elem_def)
  then show ?case
  proof cases
    case 1
    then show ?thesis using sj IH[of out] by simp
  next
    case 2
    have "clean_loop rooted (dot # ?rest) out dotdot = clean_loop rooted ?rest out dotdot"
      using rest by (rule clean_loop_dot)
    then show ?thesis using 2 sj IH[of out] by simp
  next
    case 3
    then have ne: "s \<noteq> '''' \<and> s \<noteq> ''.''" by (simp add: valid_elem_def)
    have "clean_loop rooted (s @ ?rest) out dotdot
          = clean_loop rooted ?rest
              ((if rooted \<and> length out \<noteq> 1 \<or> \<not> rooted \<and> length out \<noteq> 0
                then out @ ''/'' else out) @ s) dotdot"
      using 3 rest by (rule clean_loop_elem)
    then show ?thesis using ne sj IH by simp
  qed
qed

lemma emit_relative:
  "out \<noteq> [] \<Longrightarrow> emit False out gs = out @ concat (map (\<lambda>g. slash # g) gs)"
  by (induction gs arbitrary: out) simp_all


lemma slash_join_concat:
  "slash_join (g # gs) = g @ concat (map (\<lambda>g. slash # g) gs)"
  by (induction gs arbitrary: g) simp_all

lemma emit_relative_start:
  "g \<noteq> [] \<Longrightarrow> emit False [] (g # gs) = slash_join (g # gs)"
  by (simp add: emit_relative slash_join_concat)


lemma slash_join_append:
  "xs \<noteq> [] \<Longrightarrow> ys \<noteq> [] \<Longrightarrow> slash_join (xs @ ys) = slash_join xs @ slash # slash_join ys"
proof (induction xs)
  case Nil
  then show ?case by simp
next
  case (Cons x xs)
  then show ?case by (cases xs) (simp_all add: slash_join_Cons)
qed

lemma hd_slash_join:
  "g \<noteq> [] \<Longrightarrow> hd (slash_join (g # gs)) = hd g"
  by (simp add: slash_join_concat)

lemma slash_join_Nil_iff:
  "g \<noteq> [] \<Longrightarrow> slash_join (g # gs) \<noteq> []"
  by (simp add: slash_join_concat)

lemma last_slash_join:
  "gs \<noteq> [] \<Longrightarrow> last gs \<noteq> [] \<Longrightarrow> last (slash_join gs) = last (last gs)"
proof (induction gs)
  case Nil
  then show ?case by simp
next
  case (Cons g gs)
  show ?case
  proof (cases gs)
    case Nil
    then show ?thesis by simp
  next
    case (Cons h hs)
    with Cons.prems Cons.IH have "last (slash_join gs) = last (last gs)" by simp
    moreover have "slash_join gs \<noteq> []"
    proof (cases hs)
      case Nil
      with Cons Cons.prems show ?thesis by simp
    next
      case (Cons k ks)
      with \<open>gs = h # hs\<close> show ?thesis by simp
    qed
    ultimately show ?thesis using Cons by (simp add: slash_join_Cons)
  qed
qed

lemma filter_valid_elems:
  "\<forall>s \<in> set segs. valid_elem s \<Longrightarrow> filter (\<lambda>s. s \<noteq> '''' \<and> s \<noteq> ''.'') segs = segs"
  by (induction segs) (auto simp: valid_elem_def)

lemma Clean_slash_join:
  assumes "segs \<noteq> []" and "\<forall>s \<in> set segs. valid_elem s"
  shows "Clean (slash_join segs) = slash_join segs"
proof -
  from assms obtain g gs where segs: "segs = g # gs" by (cases segs) auto
  with assms have g: "g \<noteq> []" "slash \<notin> set g" by (auto simp: valid_elem_def)
  have ne: "slash_join segs \<noteq> []" using segs g by (simp add: slash_join_Nil_iff)
  have "hd (slash_join segs) = hd g" using segs g by (simp add: hd_slash_join)
  with g have hd: "hd (slash_join segs) \<noteq> slash" by (cases g) auto
  have "clean_loop False (slash_join segs) '''' 0
        = emit False '''' (filter (\<lambda>s. s \<noteq> '''' \<and> s \<noteq> ''.'') segs)"
    using assms(2) by (intro clean_loop_segs) (auto simp: valid_elem_def)
  also have "\<dots> = emit False '''' segs" using assms(2) by (simp add: filter_valid_elems)
  also have "\<dots> = slash_join segs" using segs g(1) emit_relative_start[of g gs] by simp
  finally have "clean_loop False (slash_join segs) '''' 0 = slash_join segs" .
  then show ?thesis using ne hd by (simp add: Clean_def)
qed

lemma Clean_valid: "validElems p \<Longrightarrow> Clean p = p"
  using Clean_slash_join[of "Split p"] valid_elem_Split[of p]
  by (simp add: Split_nonempty slash_join_Split)

lemma Clean_dot: "Clean ''.'' = ''.''"
  by (simp add: Clean_def clean_loop.simps)

lemma Clean_ValidPath: "ValidPath p \<Longrightarrow> Clean p = p"
  using ValidPath_cases[of p] by (auto simp: Clean_dot Clean_valid)

lemma Trim_id:
  assumes "p \<noteq> []" and "hd p \<noteq> slash" and "last p \<noteq> slash"
  shows "Trim p = p"
proof -
  from assms have "dropWhile (\<lambda>c. c = slash) (rev p) = rev p"
    by (cases "rev p") (auto simp: last_rev[symmetric] hd_rev)
  moreover from assms have "dropWhile (\<lambda>c. c = slash) p = p" by (cases p) auto
  ultimately show ?thesis by (simp add: Trim_def)
qed

lemma Trim_valid:
  assumes "validElems p"
  shows "Trim p = p"
proof -
  let ?segs = "Split p"
  have p: "p = slash_join ?segs" by (simp add: slash_join_Split)
  have v: "\<forall>s \<in> set ?segs. valid_elem s" using assms valid_elem_Split by blast
  obtain g gs where segs: "?segs = g # gs" using Split_nonempty[of p] by (cases ?segs) auto
  with v have g: "g \<noteq> []" "slash \<notin> set g" by (auto simp: valid_elem_def)
  have "hd p = hd g" using p segs g hd_slash_join[of g gs] by simp
  with g have hd: "hd p \<noteq> slash" by (cases g) auto
  have l: "last ?segs \<noteq> [] \<and> slash \<notin> set (last ?segs)"
    using v Split_nonempty[of p] last_in_set[of ?segs] by (auto simp: valid_elem_def)
  then have "last (slash_join ?segs) = last (last ?segs)"
    using Split_nonempty[of p] by (simp add: last_slash_join)
  moreover have "last (last ?segs) \<in> set (last ?segs)" using l by simp
  ultimately have last: "last p \<noteq> slash" using l p by metis
  have "p \<noteq> []" using assms validElems_not_dot by blast
  then show ?thesis using hd last by (rule Trim_id)
qed

lemma segments_valid:
  "validElems name \<Longrightarrow> Split (Trim (Clean name)) = Split name"
  by (simp add: Clean_valid Trim_valid)

lemma join_buf_nonempty:
  "buf \<noteq> [] \<Longrightarrow> join_buf buf es = buf @ concat (map (\<lambda>e. slash # e) es)"
  by (induction es arbitrary: buf) simp_all

lemma Join_valid_segs:
  assumes "segs \<noteq> []" and "\<forall>s \<in> set segs. valid_elem s"
  shows "Join segs = slash_join segs"
proof -
  from assms obtain g gs where segs: "segs = g # gs" by (cases segs) auto
  with assms have g: "g \<noteq> []" by (auto simp: valid_elem_def)
  then have jb: "join_buf '''' segs = slash_join segs"
    using segs by (simp add: join_buf_nonempty slash_join_concat)
  have "sum_list (map length segs) \<noteq> 0" using segs g by simp
  then have "Join segs = Clean (join_buf '''' segs)"
    unfolding Join_def by (rule if_not_P)
  also have "\<dots> = Clean (slash_join segs)" by (simp only: jb)
  also have "\<dots> = slash_join segs" using assms by (rule Clean_slash_join)
  finally show ?thesis .
qed

lemma Join_empty_left: "Join ['''', b] = (if b = '''' then '''' else Clean b)"
  by (simp add: Join_def)

lemma Join_pair: "a \<noteq> '''' \<Longrightarrow> Join [a, b] = Clean (a @ slash # b)"
  by (simp add: Join_def)

lemma Join_rest:
  assumes "ss \<noteq> []" and "\<forall>s \<in> set ss. valid_elem s"
  shows "Join ['''', Join ss] = slash_join ss"
proof -
  from assms obtain g gs where ss: "ss = g # gs" by (cases ss) auto
  with assms have "g \<noteq> []" by (auto simp: valid_elem_def)
  then have "slash_join ss \<noteq> []" using ss by (simp add: slash_join_Nil_iff)
  then show ?thesis
    using Join_valid_segs[OF assms] Clean_slash_join[OF assms] by (simp add: Join_empty_left)
qed

lemma ValidPath_nonempty: "ValidPath name \<Longrightarrow> name \<noteq> ''''"
  using ValidPath_cases[of name] validElems_not_dot[of name] by auto

lemma Clean_append_dot:
  assumes "validElems a"
  shows "Clean (a @ ''/.'') = a"
proof -
  let ?segs = "Split a @ [''.'']"
  have v: "\<forall>s \<in> set (Split a). valid_elem s" using assms valid_elem_Split by blast
  obtain g gs where sp: "Split a = g # gs" using Split_nonempty[of a] by (cases "Split a") auto
  with v have g: "g \<noteq> []" "slash \<notin> set g" by (auto simp: valid_elem_def)
  have sj: "slash_join ?segs = a @ ''/.''"
    using slash_join_append[of "Split a" "[''.'']"] Split_nonempty[of a]
    by (simp add: slash_join_Split)
  have a: "a = slash_join (g # gs)" using sp slash_join_Split[of a] by simp
  then have "hd a = hd g" using g hd_slash_join[of g gs] by simp
  with g have hd: "hd a \<noteq> slash" by (cases g) auto
  have ne: "a \<noteq> []" using assms validElems_not_dot by blast
  have "clean_loop False (slash_join ?segs) '''' 0
        = emit False '''' (filter (\<lambda>s. s \<noteq> '''' \<and> s \<noteq> ''.'') ?segs)"
    using v by (intro clean_loop_segs) (auto simp: valid_elem_def)
  also have "\<dots> = emit False '''' (Split a)" using v by (simp add: filter_valid_elems)
  also have "\<dots> = a" using sp g(1) a emit_relative_start[of g gs] by simp
  finally have "clean_loop False (a @ ''/.'') '''' 0 = a" using sj by simp
  then show ?thesis using ne hd by (cases a) (simp_all add: Clean_def)
qed

lemma Clean_append_valid:
  assumes "validElems a" and "validElems b"
  shows "Clean (a @ slash # b) = a @ slash # b"
proof -
  have "slash_join (Split a @ Split b) = a @ slash # b"
    using slash_join_append[of "Split a" "Split b"] Split_nonempty
    by (simp add: slash_join_Split)
  moreover have "\<forall>s \<in> set (Split a @ Split b). valid_elem s"
    using assms valid_elem_Split by auto
  moreover have "Split a @ Split b \<noteq> []" using Split_nonempty by simp
  ultimately show ?thesis using Clean_slash_join[of "Split a @ Split b"] by simp
qed

lemma Join_path_name:
  assumes "a = '''' \<or> validElems a" and "ValidPath name"
  shows "Join [a, name]
         = (if a = '''' then name else if name = ''.'' then a else a @ ''/'' @ name)"
proof (cases "a = ''''")
  case True
  then show ?thesis
    using assms(2) by (simp add: Join_empty_left ValidPath_nonempty Clean_ValidPath)
next
  case False
  with assms(1) have a: "validElems a" by simp
  show ?thesis
  proof (cases "name = ''.''")
    case True
    then show ?thesis using False a Clean_append_dot[of a] by (simp add: Join_pair)
  next
    case nd: False
    with assms(2) have "validElems name" using ValidPath_cases by blast
    then show ?thesis using False nd a by (simp add: Join_pair Clean_append_valid)
  qed
qed

section \<open>Facts about references and handles\<close>

lemma join_pinned:
  "owner r \<noteq> '''' \<Longrightarrow> repo r \<noteq> '''' \<Longrightarrow> join r name = r\<lparr>path := Join [path r, name]\<rparr>"
  by (simp add: join_def)

lemma join_dot_unpinned:
  "\<not> (owner r \<noteq> '''' \<and> repo r \<noteq> '''') \<Longrightarrow> join r ''.'' = r"
  by (auto simp: join_def)

lemma join_segments:
  assumes "\<not> (owner r \<noteq> '''' \<and> repo r \<noteq> '''')" and "path r = ''''"
    and "segs \<noteq> []" and "\<forall>s \<in> set segs. valid_elem s"
    and "name \<noteq> ''''" and "name \<noteq> ''.''" and "Split (Trim (Clean name)) = segs"
  shows "join r name = consume_spec r segs"
proof -
  from assms(3) obtain g gs where segs: "segs = g # gs" by (cases segs) auto
  with assms(4) have g: "g \<noteq> []" by (auto simp: valid_elem_def)
  have rest1: "gs \<noteq> [] \<Longrightarrow> Join ['''', Join gs] = slash_join gs"
    using assms(4) segs by (intro Join_rest) auto
  show ?thesis
  proof (cases gs)
    case Nil
    then show ?thesis
      using assms(1,2,5,6,7) segs g
      by (auto simp: join_def consume_spec_def Let_def)
  next
    case (Cons h hs)
    with assms(4) segs have h: "h \<noteq> []" by (auto simp: valid_elem_def)
    have rest2: "hs \<noteq> [] \<Longrightarrow> Join ['''', Join hs] = slash_join hs"
      using assms(4) segs Cons by (intro Join_rest) auto
    show ?thesis
    proof (cases hs)
      case Nil
      then show ?thesis
        using assms(1,2,5,6,7) segs g h Cons rest1
        by (auto simp: join_def consume_spec_def Let_def)
    next
      case hs: (Cons k ks)
      then show ?thesis
        using assms(1,2,5,6,7) segs g h Cons rest1 rest2
        by (auto simp: join_def consume_spec_def Let_def)
    qed
  qed
qed

lemma join_unpinned:
  assumes "\<not> (owner r \<noteq> '''' \<and> repo r \<noteq> '''')" and "path r = ''''" and "ValidPath name"
  shows "join r name = consume_spec r (if name = ''.'' then [] else Split name)"
proof (cases "name = ''.''")
  case True
  then show ?thesis using assms(1) by (simp add: join_dot_unpinned consume_spec_def)
next
  case False
  with assms(3) have v: "validElems name" using ValidPath_cases by blast
  have "join r name = consume_spec r (Split name)"
    using assms(1,2) Split_nonempty[of name] v False ValidPath_nonempty[OF assms(3)]
    by (intro join_segments) (auto simp: valid_elem_Split segments_valid)
  then show ?thesis using False by simp
qed

lemma Split_slash_join:
  "segs \<noteq> [] \<Longrightarrow> \<forall>s \<in> set segs. slash \<notin> set s \<Longrightarrow> Split (slash_join segs) = segs"
proof (induction segs)
  case Nil
  then show ?case by simp
next
  case (Cons s ss)
  show ?case
  proof (cases ss)
    case Nil
    with Cons.prems show ?thesis by (simp add: Split_noslash)
  next
    case (Cons t ts)
    with Cons.prems Cons.IH have "Split (slash_join ss) = ss" by simp
    moreover have "slash_join (s # ss) = s @ slash # slash_join ss"
      using Cons by simp
    ultimately show ?thesis using Cons.prems by (simp add: Split_slash)
  qed
qed

lemma validElems_slash_join:
  assumes "segs \<noteq> []" and "\<forall>s \<in> set segs. valid_elem s"
  shows "validElems (slash_join segs)"
proof -
  have "Split (slash_join segs) = segs"
    using assms by (intro Split_slash_join) (auto simp: valid_elem_def)
  then show ?thesis using assms(2) by (simp add: validElems_Split valid_elem_def)
qed

lemma consume_spec_inv:
  assumes "ref_inv r" and "path r = ''''" and "\<forall>s \<in> set segs. s \<noteq> ''''"
  shows "ref_inv (consume_spec r segs)"
proof (cases segs)
  case Nil
  then show ?thesis using assms by (simp add: consume_spec_def)
next
  case (Cons g gs)
  show ?thesis
  proof (cases gs)
    case Nil
    then show ?thesis
      using assms Cons by (auto simp: consume_spec_def ref_inv_def Let_def)
  next
    case gs: (Cons h hs)
    then show ?thesis
      using assms Cons by (auto simp: consume_spec_def ref_inv_def Let_def)
  qed
qed

lemma join_inv:
  assumes "ref_inv r" and "ValidPath name"
  shows "ref_inv (join r name)"
proof (cases "owner r \<noteq> '''' \<and> repo r \<noteq> ''''")
  case True
  then show ?thesis by (simp add: join_pinned ref_inv_def)
next
  case False
  with assms(1) have p: "path r = ''''" by (auto simp: ref_inv_def)
  have j: "join r name = consume_spec r (if name = ''.'' then [] else Split name)"
    using False p assms(2) by (rule join_unpinned)
  have "\<forall>s \<in> set (if name = ''.'' then [] else Split name). s \<noteq> ''''"
    using assms(2) ValidPath_cases[of name] by (auto simp: validElems_Split)
  with assms(1) p show ?thesis unfolding j by (rule consume_spec_inv)
qed

lemma validate_Panic_iff: "(\<exists>m. validate r op' = Panic m) = (\<not> ref_inv r)"
  by (auto simp: validate_def ref_inv_def)

lemma validate_no_owner:
  "ref_inv r \<Longrightarrow> owner r = ''''
   \<Longrightarrow> validate r op' = Return (Some (PathError op' '''' (errorString ''owner is missing'')))"
  by (auto simp: validate_def ref_inv_def)

lemma join_owner_empty:
  assumes "ValidPath name" and "ref_inv r" and "owner (join r name) = ''''"
  shows "name = ''.'' \<and> join r name = r"
proof -
  have un: "\<not> (owner r \<noteq> '''' \<and> repo r \<noteq> '''')"
  proof
    assume a: "owner r \<noteq> [] \<and> repo r \<noteq> []"
    then have "owner (join r name) = owner r" by (simp add: join_pinned)
    with a assms(3) show False by simp
  qed
  with assms(2) have p: "path r = ''''" by (auto simp: ref_inv_def)
  have j: "join r name = consume_spec r (if name = ''.'' then [] else Split name)"
    using un p assms(1) by (rule join_unpinned)
  show ?thesis
  proof (cases "name = ''.''")
    case True
    then show ?thesis using un by (simp add: join_dot_unpinned)
  next
    case False
    obtain g gs where sp: "Split name = g # gs"
      using Split_nonempty[of name] by (cases "Split name") auto
    have "validElems name" using assms(1) False ValidPath_cases by blast
    then have "g \<noteq> ''''" using sp by (auto simp: validElems_Split)
    then have "owner (consume_spec r (g # gs)) \<noteq> ''''"
      using assms(3) by (cases gs) (auto simp: consume_spec_def Let_def split: if_splits)
    then show ?thesis using assms(3) j False sp by simp
  qed
qed

lemma consume_spec_path_ok:
  assumes "path r = ''''" and "\<forall>s \<in> set segs. s \<noteq> ''''"
  shows "path_ok (consume_spec r segs)"
proof (cases segs)
  case Nil
  then show ?thesis using assms by (simp add: consume_spec_def path_ok_def)
next
  case (Cons g gs)
  show ?thesis
  proof (cases gs)
    case Nil
    then show ?thesis
      using assms Cons by (auto simp: consume_spec_def path_ok_def Let_def)
  next
    case gs: (Cons h hs)
    then show ?thesis
      using assms Cons by (auto simp: consume_spec_def path_ok_def Let_def)
  qed
qed

lemma join_path_ok:
  assumes "path_ok r" and "ValidPath name"
  shows "path_ok (join r name)"
proof (cases "owner r \<noteq> '''' \<and> repo r \<noteq> ''''")
  case True
  then show ?thesis by (simp add: join_pinned path_ok_def)
next
  case False
  with assms(1) have p: "path r = ''''" by (auto simp: path_ok_def)
  have j: "join r name = consume_spec r (if name = ''.'' then [] else Split name)"
    using False p assms(2) by (rule join_unpinned)
  have "\<forall>s \<in> set (if name = ''.'' then [] else Split name). s \<noteq> ''''"
    using assms(2) ValidPath_cases[of name] by (auto simp: validElems_Split)
  with p show ?thesis unfolding j by (rule consume_spec_path_ok)
qed

lemma apply_opt_path: "path (ref (apply_opt opt f)) = path (ref f)"
proof (induction opt f rule: apply_opt.induct)
  case (6 os f)
  have "\<And>g. (\<And>x g. x \<in> set os \<Longrightarrow> path (ref (apply_opt x g)) = path (ref g))
            \<Longrightarrow> path (ref (fold apply_opt os g)) = path (ref g)"
  proof (induction os)
    case Nil
    then show ?case by simp
  next
    case (Cons x xs)
    then show ?case by simp
  qed
  then show ?case using "6.IH" by simp
qed (simp_all add: Let_def)

lemma fold_apply_opt_path: "path (ref (fold apply_opt opts f)) = path (ref f)"
  by (induction opts arbitrary: f) (simp_all add: apply_opt_path)

lemma New_path: "path (ref (New NewClient opts)) = ''''"
  by (simp add: New_def Let_def fold_apply_opt_path)

lemma handles_path_ok: "f \<in> handles \<Longrightarrow> path_ok (ref f)"
proof (induction rule: handles.induct)
  case (handle_New NewClient opts)
  then show ?case by (simp add: path_ok_def New_path)
next
  case (handle_Sub f dir' f')
  then show ?case
    by (auto simp: Sub_def clone_def join_path_ok split: if_splits)
qed

lemma join_full_name:
  assumes "valid_elem own" and "valid_elem rp" and "ValidPath name" and "name \<noteq> ''.''"
  shows "join \<lparr>owner = '''', repo = '''', path = ''''\<rparr> (own @ ''/'' @ rp @ ''/'' @ name)
         = join \<lparr>owner = own, repo = rp, path = ''''\<rparr> name"
proof -
  let ?full = "own @ ''/'' @ rp @ ''/'' @ name"
  let ?segs = "own # rp # Split name"
  have v: "validElems name" using assms(3,4) ValidPath_cases by blast
  have segs: "\<forall>s \<in> set ?segs. valid_elem s"
    using assms(1,2) v valid_elem_Split by auto
  have sj: "slash_join ?segs = ?full"
    using Split_nonempty[of name] by (simp add: slash_join_Cons slash_join_Split)
  have vf: "validElems ?full"
    using validElems_slash_join[of ?segs] segs sj by simp
  have sp: "Split ?full = ?segs"
    using Split_slash_join[of ?segs] segs sj by (auto simp: valid_elem_def)
  have own: "own \<noteq> ''''" and rp: "rp \<noteq> ''''"
    using assms(1,2) by (simp_all add: valid_elem_def)
  have "join \<lparr>owner = '''', repo = '''', path = ''''\<rparr> ?full
        = consume_spec \<lparr>owner = '''', repo = '''', path = ''''\<rparr> ?segs"
    using segs vf sp validElems_not_dot[OF vf]
    by (intro join_segments) (simp_all add: segments_valid)
  also have "\<dots> = \<lparr>owner = own, repo = rp, path = name\<rparr>"
    using own Split_nonempty[of name] by (simp add: consume_spec_def slash_join_Split)
  also have "\<dots> = join \<lparr>owner = own, repo = rp, path = ''''\<rparr> name"
    using own rp assms(3) by (simp add: join_pinned Join_path_name)
  finally show ?thesis .
qed

lemma not_ValidPath_forms:
  assumes "name = '''' \<or> hd name = slash
           \<or> (name \<noteq> ''.'' \<and> (\<exists>s \<in> set (Split name). s = '''' \<or> s = ''.'' \<or> s = ''..''))"
  shows "\<not> ValidPath name"
proof
  assume v: "ValidPath name"
  then have ne: "name \<noteq> ''''" by (rule ValidPath_nonempty)
  from assms ne consider "hd name = slash"
    | "name \<noteq> ''.'' \<and> (\<exists>s \<in> set (Split name). s = '''' \<or> s = ''.'' \<or> s = ''..'')"
    by blast
  then show False
  proof cases
    case 1
    with ne obtain t where t: "name = slash # t" by (cases name) auto
    then have nd: "name \<noteq> ''.''" by simp
    have "Split name = '''' # Split t" using t Split_slash[of "''''" t] by simp
    then have "\<not> validElems name" by (simp add: validElems_Split)
    with v nd show False using ValidPath_cases by blast
  next
    case 2
    then have "\<not> validElems name" by (auto simp: validElems_Split)
    with v 2 show False using ValidPath_cases by blast
  qed
qed

lemma New_WithRepository_no_owner:
  "rp \<noteq> '''' \<Longrightarrow> ref (New nc [WithRepository '''' rp]) = \<lparr>owner = '''', repo = rp, path = ''''\<rparr>"
  by (simp add: New_def Let_def)

lemma join_repo_only:
  assumes "rp \<noteq> ''''" and "ValidPath name" and "name \<noteq> ''.''"
  shows "ref_inv (join \<lparr>owner = '''', repo = rp, path = ''''\<rparr> name)"
proof -
  let ?r = "\<lparr>owner = '''', repo = rp, path = ''''\<rparr>"
  have v: "validElems name" using assms(2,3) ValidPath_cases by blast
  obtain g gs where sp: "Split name = g # gs"
    using Split_nonempty[of name] by (cases "Split name") auto
  with v have g: "g \<noteq> ''''" by (auto simp: validElems_Split)
  have "join ?r name = consume_spec ?r (if name = ''.'' then [] else Split name)"
    using assms(2) by (intro join_unpinned) simp_all
  then have "join ?r name = consume_spec ?r (g # gs)" using assms(3) sp by simp
  then show ?thesis
    using assms(1) g by (cases gs) (simp_all add: consume_spec_def ref_inv_def)
qed






section \<open>Facts about the directory cursor and the page loop\<close>

lemma copy_entries_take_drop:
  assumes "0 \<le> offset d" and "0 \<le> count" and "offset d + count \<le> int (length (entries d))"
  shows "copy_entries d count = Return (take (nat count) (drop (nat (offset d)) (entries d)))"
proof -
  have "map (\<lambda>i. entries d ! nat (offset d + int i)) [0..<nat count]
        = take (nat count) (drop (nat (offset d)) (entries d))"
  proof (rule nth_equalityI)
    show "length (map (\<lambda>i. entries d ! nat (offset d + int i)) [0..<nat count])
          = length (take (nat count) (drop (nat (offset d)) (entries d)))"
      using assms by simp
  next
    fix i
    assume "i < length (map (\<lambda>i. entries d ! nat (offset d + int i)) [0..<nat count])"
    then have i: "i < nat count" by simp
    then have "nat (offset d + int i) = nat (offset d) + i"
      using assms by simp
    then show "map (\<lambda>i. entries d ! nat (offset d + int i)) [0..<nat count] ! i
               = take (nat count) (drop (nat (offset d)) (entries d)) ! i"
      using i assms by simp
  qed
  then show ?thesis
    using assms by (simp add: copy_entries_def)
qed

lemma ReadDir_all:
  assumes "0 \<le> offset d" and "offset d \<le> int (length (entries d))" and "n \<le> 0"
  shows "ReadDir d n = Return ((drop (nat (offset d)) (entries d), None),
                               d\<lparr>offset := int (length (entries d))\<rparr>)"
proof (cases "offset d = int (length (entries d))")
  case True
  then have "d\<lparr>offset := int (length (entries d))\<rparr> = d" by simp
  with True assms show ?thesis by (simp add: ReadDir_def)
next
  case False
  with assms have "copy_entries d (int (length (entries d)) - offset d)
      = Return (take (nat (int (length (entries d)) - offset d)) (drop (nat (offset d)) (entries d)))"
    by (intro copy_entries_take_drop) simp_all
  with False assms show ?thesis by (simp add: ReadDir_def)
qed

lemma ReadDir_end:
  assumes "offset d = int (length (entries d))" and "n > 0"
  shows "ReadDir d n = Return (([], Some EOF), d)"
  using assms by (simp add: ReadDir_def)

lemma ReadDir_some:
  assumes "0 \<le> offset d" and "offset d < int (length (entries d))" and "n > 0"
  shows "ReadDir d n =
           Return ((take (nat (min n (int (length (entries d)) - offset d)))
                      (drop (nat (offset d)) (entries d)),
                    if offset d + min n (int (length (entries d)) - offset d)
                         = int (length (entries d))
                       \<and> n > min n (int (length (entries d)) - offset d)
                    then Some EOF else None),
                   d\<lparr>offset := offset d + min n (int (length (entries d)) - offset d)\<rparr>)"
proof -
  let ?c = "min n (int (length (entries d)) - offset d)"
  have "copy_entries d ?c = Return (take (nat ?c) (drop (nat (offset d)) (entries d)))"
    using assms by (intro copy_entries_take_drop) simp_all
  then show ?thesis
    using assms by (auto simp: ReadDir_def Let_def)
qed

lemma chunks_spec_short:
  "length es < n \<Longrightarrow> chunks_spec n es = [(es, Some EOF)]"
  by (subst chunks_spec.simps) simp

lemma chunks_spec_full:
  "0 < n \<Longrightarrow> n \<le> length es
   \<Longrightarrow> chunks_spec n es = (take n es, None) # chunks_spec n (drop n es)"
  by (subst chunks_spec.simps) simp

lemma chunks_spec_nonempty: "chunks_spec n es \<noteq> []"
  by (subst chunks_spec.simps) simp

lemma chunks_spec_props:
  "0 < n \<Longrightarrow>
   concat (map fst (chunks_spec n es)) = es
         \<and> (\<forall>c \<in> set (chunks_spec n es). length (fst c) \<le> n)
         \<and> (\<forall>c \<in> set (butlast (chunks_spec n es)). snd c = None \<and> length (fst c) = n)
         \<and> snd (last (chunks_spec n es)) = Some EOF
         \<and> length (fst (last (chunks_spec n es))) < n"
proof (induction n es rule: chunks_spec.induct)
  case (1 n es)
  show ?case
  proof (cases "length es < n")
    case True
    then show ?thesis by (simp add: chunks_spec_short)
  next
    case False
    then have le: "n \<le> length es" by simp
    have nz: "\<not> (n = 0 \<or> length es < n)" using False "1.prems" by simp
    have eq: "chunks_spec n es = (take n es, None) # chunks_spec n (drop n es)"
      using "1.prems" le by (rule chunks_spec_full)
    have IH: "concat (map fst (chunks_spec n (drop n es))) = drop n es
         \<and> (\<forall>c \<in> set (chunks_spec n (drop n es)). length (fst c) \<le> n)
         \<and> (\<forall>c \<in> set (butlast (chunks_spec n (drop n es))). snd c = None \<and> length (fst c) = n)
         \<and> snd (last (chunks_spec n (drop n es))) = Some EOF
         \<and> length (fst (last (chunks_spec n (drop n es)))) < n"
      using "1.IH"[OF nz "1.prems"] .
    show ?thesis
      unfolding eq using IH le chunks_spec_nonempty[of n "drop n es"] by simp
  qed
qed

lemma read_until_EOF_chunks:
  assumes "0 < n" and "0 \<le> offset d" and "offset d \<le> int (length (entries d))"
  shows "read_until_EOF d n
         = Some (Return (chunks_spec (nat n) (drop (nat (offset d)) (entries d))))"
  using assms(2,3)
proof (induction "length (entries d) - nat (offset d)" arbitrary: d rule: less_induct)
  case less
  let ?len = "int (length (entries d))"
  let ?rest = "drop (nat (offset d)) (entries d)"
  have lrest: "int (length ?rest) = ?len - offset d" using less.prems by simp
  show ?case
  proof (cases "offset d = ?len")
    case True
    then have "ReadDir d n = Return (([], Some EOF), d)"
      using assms(1) by (intro ReadDir_end)
    moreover have "chunks_spec (nat n) ?rest = [([], Some EOF)]"
      using True assms(1) by (simp add: chunks_spec_short)
    ultimately show ?thesis by (subst read_until_EOF.simps) simp
  next
    case False
    with less.prems have lt: "offset d < ?len" by simp
    let ?c = "min n (?len - offset d)"
    let ?d' = "d\<lparr>offset := offset d + ?c\<rparr>"
    have rd: "ReadDir d n =
           Return ((take (nat ?c) ?rest,
                    if offset d + ?c = ?len \<and> n > ?c then Some EOF else None), ?d')"
      using less.prems(1) lt assms(1) by (rule ReadDir_some)
    show ?thesis
    proof (cases "?len - offset d < n")
      case True
      then have c: "?c = ?len - offset d" by simp
      have "take (nat ?c) ?rest = ?rest" using c lrest by simp
      moreover have "chunks_spec (nat n) ?rest = [(?rest, Some EOF)]"
        using True lrest assms(1) by (intro chunks_spec_short) simp
      ultimately show ?thesis
        using rd c True by (subst read_until_EOF.simps) simp
    next
      case False
      then have c: "?c = n" by simp
      have m: "length (entries ?d') - nat (offset ?d') < length (entries d) - nat (offset d)"
        using c assms(1) lt less.prems(1) by simp
      have rec: "read_until_EOF ?d' n
            = Some (Return (chunks_spec (nat n) (drop (nat (offset ?d')) (entries ?d'))))"
        using m c assms(1) less.prems False by (intro less.hyps) simp_all
      have dr: "drop (nat (offset ?d')) (entries ?d') = drop (nat n) ?rest"
        using c assms(1) less.prems(1) by (simp add: nat_add_distrib add.commute)
      have "n \<le> int (length ?rest)" using False lrest by linarith
      then have "nat n \<le> length ?rest" by linarith
      then have ch: "chunks_spec (nat n) ?rest
                     = (take (nat n) ?rest, None) # chunks_spec (nat n) (drop (nat n) ?rest)"
        using assms(1) by (intro chunks_spec_full) simp_all
      show ?thesis
        using rd c rec dr ch by (subst read_until_EOF.simps) simp
    qed
  qed
qed

lemma page_run_loop:
  "page_run c own opts w repos w'
   \<Longrightarrow> listRepositories_loop c own opts allRepos w = Some (Inr (allRepos @ repos), w')"
proof (induction arbitrary: allRepos rule: page_run.induct)
  case (last_page opts w repos resp w')
  then show ?case
    by (subst listRepositories_loop.simps) (simp add: handleErr_def)
next
  case (next_page opts w repos resp w' rest w'')
  have "listRepositories_loop c own (opts\<lparr>Page := NextPage resp\<rparr>) (allRepos @ repos) w'
        = Some (Inr ((allRepos @ repos) @ rest), w'')"
    by (rule next_page.IH)
  then show ?case
    using next_page.hyps(1,2)
    by (subst listRepositories_loop.simps) (simp add: handleErr_def)
qed

section \<open>Facts about Open\<close>

lemma not_slash_bytes:
  "cont_byte x \<Longrightarrow> x \<noteq> slash" "byte_in 0xA0 0xBF x \<Longrightarrow> x \<noteq> slash"
  "byte_in 0x80 0x9F x \<Longrightarrow> x \<noteq> slash" "byte_in 0x90 0xBF x \<Longrightarrow> x \<noteq> slash"
  "byte_in 0x80 0x8F x \<Longrightarrow> x \<noteq> slash"
  by (auto simp: cont_byte_def byte_in_def)

lemma utf8_ascii_slash: "utf8_ValidString (slash # b) = utf8_ValidString b"
  by (simp add: byte_in_def)

lemma utf8_lead_shape:
  assumes "utf8_ValidString (c # cs)"
  shows "\<exists>pre r. cs = pre @ r \<and> slash \<notin> set pre \<and> utf8_ValidString r"
proof (cases "byte_in 0x00 0x7F c")
  case True
  with assms have "utf8_ValidString cs" by simp
  then have "cs = [] @ cs \<and> slash \<notin> set [] \<and> utf8_ValidString cs" by simp
  then show ?thesis by blast
next
  case a: False
  show ?thesis
  proof (cases "byte_in 0xC2 0xDF c")
    case True
    with assms a obtain c1 r where "cs = c1 # r" "cont_byte c1" "utf8_ValidString r"
      by (cases cs) simp_all
    then have "cs = [c1] @ r \<and> slash \<notin> set [c1] \<and> utf8_ValidString r"
      using not_slash_bytes(1)[of c1] by auto
    then show ?thesis by blast
  next
    case b: False
    show ?thesis
    proof (cases "byte_in 0xE0 0xEF c")
      case True
      with assms a b have s: "(case cs of
           c1 # c2 # r \<Rightarrow>
             (if c = CHR 0xE0 then byte_in 0xA0 0xBF c1
              else if c = CHR 0xED then byte_in 0x80 0x9F c1
              else cont_byte c1)
             \<and> cont_byte c2 \<and> utf8_ValidString r
         | _ \<Rightarrow> False)" by simp
      then obtain c1 c2 r where cs: "cs = c1 # c2 # r"
        by (cases cs; cases "tl cs") auto
      with s have "c1 \<noteq> slash" "c2 \<noteq> slash" "utf8_ValidString r"
        using not_slash_bytes by (auto split: if_splits)
      with cs have "cs = [c1, c2] @ r \<and> slash \<notin> set [c1, c2] \<and> utf8_ValidString r" by auto
      then show ?thesis by blast
    next
      case c: False
      show ?thesis
      proof (cases "byte_in 0xF0 0xF4 c")
        case True
        with assms a b c have s: "(case cs of
           c1 # c2 # c3 # r \<Rightarrow>
             (if c = CHR 0xF0 then byte_in 0x90 0xBF c1
              else if c = CHR 0xF4 then byte_in 0x80 0x8F c1
              else cont_byte c1)
             \<and> cont_byte c2 \<and> cont_byte c3 \<and> utf8_ValidString r
         | _ \<Rightarrow> False)" by simp
        then obtain c1 c2 c3 r where cs: "cs = c1 # c2 # c3 # r"
          by (cases cs; cases "tl cs"; cases "tl (tl cs)") auto
        with s have "c1 \<noteq> slash" "c2 \<noteq> slash" "c3 \<noteq> slash" "utf8_ValidString r"
          using not_slash_bytes by (auto split: if_splits)
        with cs have "cs = [c1, c2, c3] @ r \<and> slash \<notin> set [c1, c2, c3] \<and> utf8_ValidString r"
          by auto
        then show ?thesis by blast
      next
        case False
        with assms a b c show ?thesis by simp
      qed
    qed
  qed
qed

lemma utf8_after_slash: "utf8_ValidString (a @ slash # b) \<Longrightarrow> utf8_ValidString b"
proof (induction "length a" arbitrary: a rule: less_induct)
  case less
  show ?case
  proof (cases a)
    case Nil
    with less.prems show ?thesis by (simp only: append_Nil utf8_ascii_slash)
  next
    case (Cons c cs)
    with less.prems have "utf8_ValidString (c # (cs @ slash # b))" by simp
    then obtain pre r where pr: "cs @ slash # b = pre @ r" and ns: "slash \<notin> set pre"
      and r: "utf8_ValidString r"
      using utf8_lead_shape by blast
    from pr obtain us where
      "(cs = pre @ us \<and> us @ slash # b = r) \<or> (cs @ us = pre \<and> slash # b = us @ r)"
      unfolding append_eq_append_conv2 by blast
    then have "\<exists>cs'. cs = pre @ cs' \<and> r = cs' @ slash # b"
    proof
      assume "cs = pre @ us \<and> us @ slash # b = r"
      then show ?thesis by blast
    next
      assume a: "cs @ us = pre \<and> slash # b = us @ r"
      show ?thesis
      proof (cases us)
        case Nil
        with a show ?thesis by simp
      next
        case (Cons u us')
        with a have "u = slash" by simp
        with a Cons ns show ?thesis by auto
      qed
    qed
    then obtain cs' where cs': "cs = pre @ cs'" and r': "r = cs' @ slash # b" by blast
    have "length cs' < length a" using cs' Cons by simp
    then show ?thesis using r r' less.hyps[of cs'] by simp
  qed
qed

lemma ValidPath_rest:
  assumes "ValidPath name" and "name \<noteq> ''.''" and "Split name = pre @ rest"
    and "pre \<noteq> []" and "rest \<noteq> []"
  shows "ValidPath (slash_join rest)"
proof -
  have v: "validElems name" using assms(1,2) ValidPath_cases by blast
  have u: "utf8_ValidString name" using assms(1) by (simp add: ValidPath_def split: if_splits)
  have "name = slash_join (pre @ rest)" using assms(3) slash_join_Split[of name] by simp
  then have "name = slash_join pre @ slash # slash_join rest"
    using assms(4,5) by (simp add: slash_join_append)
  with u have u': "utf8_ValidString (slash_join rest)" using utf8_after_slash by metis
  have "\<forall>s \<in> set rest. valid_elem s" using v assms(3) valid_elem_Split[of name] by auto
  then have "validElems (slash_join rest)" using assms(5) by (intro validElems_slash_join)
  with u' show ?thesis by (simp add: ValidPath_def)
qed

lemma validate_ok:
  assumes "owner r \<noteq> ''''" and "repo r = '''' \<longrightarrow> path r = ''''"
    and "path r = '''' \<or> ValidPath (path r)"
  shows "validate r op' = Return None"
  using assms by (auto simp: validate_def)

lemma Open_after_guard:
  "ValidPath name \<Longrightarrow>
   Open f name w =
     (case validate (join (ref f) name) ''open'' of
        Panic m \<Rightarrow> Some (Panic m, w)
      | Return (Some err) \<Rightarrow> Some (Return (Inl err), w)
      | Return None \<Rightarrow>
          (if repo (join (ref f) name) = ''''
           then listRepositories f (owner (join (ref f) name)) w
           else Some (getRepoContent f (join (ref f) name) w)))"
  by (simp add: Open_def Let_def)

lemma getRepoContent_client:
  "client f = client f' \<Longrightarrow> getRepoContent f r w = getRepoContent f' r w"
  by (simp add: getRepoContent_def)

lemma Open_pinned:
  assumes "ValidPath name" and "owner (ref f) \<noteq> ''''" and "repo (ref f) \<noteq> ''''"
  shows "Open f name w =
           (if path ((ref f)\<lparr>path := Join [path (ref f), name]\<rparr>) \<noteq> ''''
               \<and> \<not> ValidPath (path ((ref f)\<lparr>path := Join [path (ref f), name]\<rparr>))
            then Some (Return (Inl (PathError ''open''
                   (path ((ref f)\<lparr>path := Join [path (ref f), name]\<rparr>)) ErrInvalid)), w)
            else Some (getRepoContent f ((ref f)\<lparr>path := Join [path (ref f), name]\<rparr>) w))"
  using assms by (simp add: Open_after_guard join_pinned validate_def)

lemma Open_unscoped:
  assumes "ValidPath name" and "name \<noteq> ''.''"
    and "ref f = \<lparr>owner = '''', repo = '''', path = ''''\<rparr>"
  shows "(case Split name of
            own # rp # rest \<Rightarrow>
              Open f name w
                = Some (getRepoContent f \<lparr>owner = own, repo = rp, path = slash_join rest\<rparr> w)
          | [own] \<Rightarrow> Open f name w = listRepositories f own w
          | [] \<Rightarrow> False)"
proof -
  have v: "validElems name" using assms(1,2) ValidPath_cases by blast
  have ve: "\<forall>s \<in> set (Split name). valid_elem s" using v valid_elem_Split by blast
  have j: "join (ref f) name = consume_spec (ref f) (Split name)"
    using join_unpinned[of "ref f" name] assms by simp
  show ?thesis
  proof (cases "Split name")
    case Nil
    then show ?thesis using Split_nonempty[of name] by simp
  next
    case (Cons own t)
    with ve have own: "own \<noteq> ''''" by (auto simp: valid_elem_def)
    show ?thesis
    proof (cases t)
      case Nil
      have r: "join (ref f) name = \<lparr>owner = own, repo = '''', path = ''''\<rparr>"
        using j Cons Nil assms(3) by (simp add: consume_spec_def)
      have "validate (join (ref f) name) ''open'' = Return None"
        unfolding r using own by (intro validate_ok) simp_all
      then show ?thesis using Cons Nil assms(1) r by (simp add: Open_after_guard)
    next
      case t: (Cons rp rest)
      with ve Cons have rp: "rp \<noteq> ''''" by (auto simp: valid_elem_def)
      have r: "join (ref f) name = \<lparr>owner = own, repo = rp, path = slash_join rest\<rparr>"
        using j Cons t assms(3) own by (cases rest) (simp_all add: consume_spec_def)
      have p: "slash_join rest = '''' \<or> ValidPath (slash_join rest)"
      proof (cases rest)
        case Nil
        then show ?thesis by simp
      next
        case c: (Cons x xs)
        have "Split name = [own, rp] @ rest" using Cons t by simp
        then have "ValidPath (slash_join rest)"
          using assms(1,2) c by (intro ValidPath_rest[of name "[own, rp]" rest]) simp_all
        then show ?thesis by simp
      qed
      have "validate (join (ref f) name) ''open'' = Return None"
        unfolding r using own rp p by (intro validate_ok) simp_all
      then show ?thesis using Cons t assms(1) r rp by (simp add: Open_after_guard)
    qed
  qed
qed

lemma Open_owner_scoped:
  assumes "ValidPath name" and "own \<noteq> ''''"
    and "ref f = \<lparr>owner = own, repo = '''', path = ''''\<rparr>"
  shows "(if name = ''.'' then Open f name w = listRepositories f own w
          else (case Split name of
                  rp # rest \<Rightarrow>
                    Open f name w
                      = Some (getRepoContent f
                                \<lparr>owner = own, repo = rp, path = slash_join rest\<rparr> w)
                | [] \<Rightarrow> False))"
proof (cases "name = ''.''")
  case True
  have r: "join (ref f) name = \<lparr>owner = own, repo = '''', path = ''''\<rparr>"
    using True assms(3) by (simp add: join_dot_unpinned)
  have "validate (join (ref f) name) ''open'' = Return None"
    unfolding r using assms(2) by (intro validate_ok) simp_all
  then show ?thesis using True assms(1) r by (simp add: Open_after_guard)
next
  case False
  have v: "validElems name" using assms(1) False ValidPath_cases by blast
  have ve: "\<forall>s \<in> set (Split name). valid_elem s" using v valid_elem_Split by blast
  have j: "join (ref f) name = consume_spec (ref f) (Split name)"
    using join_unpinned[of "ref f" name] assms False by simp
  show ?thesis
  proof (cases "Split name")
    case Nil
    then show ?thesis using Split_nonempty[of name] by simp
  next
    case (Cons rp rest)
    with ve have rp: "rp \<noteq> ''''" by (auto simp: valid_elem_def)
    have r: "join (ref f) name = \<lparr>owner = own, repo = rp, path = slash_join rest\<rparr>"
      using j Cons assms(2,3) by (cases rest) (simp_all add: consume_spec_def)
    have p: "slash_join rest = '''' \<or> ValidPath (slash_join rest)"
    proof (cases rest)
      case Nil
      then show ?thesis by simp
    next
      case c: (Cons x xs)
      have "Split name = [rp] @ rest" using Cons by simp
      then have "ValidPath (slash_join rest)"
        using assms(1) False c by (intro ValidPath_rest[of name "[rp]" rest]) simp_all
      then show ?thesis by simp
    qed
    have "validate (join (ref f) name) ''open'' = Return None"
      unfolding r using assms(2) rp p by (intro validate_ok) simp_all
    then show ?thesis using Cons False assms(1) r rp by (simp add: Open_after_guard)
  qed
qed

lemma Open_full_name:
  assumes "valid_elem own" and "valid_elem rp" and "ValidPath name" and "name \<noteq> ''.''"
    and "ValidPath (own @ ''/'' @ rp @ ''/'' @ name)"
  shows "Open (New nc []) (own @ ''/'' @ rp @ ''/'' @ name) w
           = Some (getRepoContent (New nc []) \<lparr>owner = own, repo = rp, path = name\<rparr> w)"
    and "Open (New nc [WithRepository own rp]) name w
           = Some (getRepoContent (New nc []) \<lparr>owner = own, repo = rp, path = name\<rparr> w)"
proof -
  let ?r = "\<lparr>owner = own, repo = rp, path = name\<rparr>"
  have own: "own \<noteq> ''''" and rp: "rp \<noteq> ''''"
    using assms(1,2) by (simp_all add: valid_elem_def)
  have ne: "name \<noteq> ''''" using assms(3) by (rule ValidPath_nonempty)
  have e: "ref (New nc []) = \<lparr>owner = '''', repo = '''', path = ''''\<rparr>"
    by (simp add: New_def)
  have s: "ref (New nc [WithRepository own rp]) = \<lparr>owner = own, repo = rp, path = ''''\<rparr>"
    using own rp by (simp add: New_def Let_def)
  have js: "join \<lparr>owner = own, repo = rp, path = ''''\<rparr> name = ?r"
    using own rp assms(3) by (simp add: join_pinned Join_path_name)
  have je: "join \<lparr>owner = '''', repo = '''', path = ''''\<rparr> (own @ ''/'' @ rp @ ''/'' @ name) = ?r"
    using join_full_name[OF assms(1-4)] js by simp
  have v: "validate ?r ''open'' = Return None"
    using own rp assms(3) by (intro validate_ok) simp_all
  have c: "client (New nc [WithRepository own rp]) = client (New nc [])"
    by (simp add: New_def Let_def)
  show "Open (New nc []) (own @ ''/'' @ rp @ ''/'' @ name) w
           = Some (getRepoContent (New nc []) ?r w)"
    using assms(5) v rp e je by (simp add: Open_after_guard)
  have "Open (New nc [WithRepository own rp]) name w
           = Some (getRepoContent (New nc [WithRepository own rp]) ?r w)"
    using assms(3) v rp s js by (simp add: Open_after_guard)
  then show "Open (New nc [WithRepository own rp]) name w
           = Some (getRepoContent (New nc []) ?r w)"
    using getRepoContent_client[OF c] by simp
qed

lemma join_repo_only_fields:
  assumes "rp \<noteq> ''''" and "ValidPath name" and "name \<noteq> ''.''"
  shows "owner (join \<lparr>owner = '''', repo = rp, path = ''''\<rparr> name) = hd (Split name)
         \<and> hd (Split name) \<noteq> ''''
         \<and> repo (join \<lparr>owner = '''', repo = rp, path = ''''\<rparr> name) = rp"
proof -
  let ?r = "\<lparr>owner = '''', repo = rp, path = ''''\<rparr>"
  have v: "validElems name" using assms(2,3) ValidPath_cases by blast
  obtain g gs where sp: "Split name = g # gs"
    using Split_nonempty[of name] by (cases "Split name") auto
  with v have g: "g \<noteq> ''''" by (auto simp: validElems_Split)
  have "join ?r name = consume_spec ?r (if name = ''.'' then [] else Split name)"
    using assms(2) by (intro join_unpinned) simp_all
  then have "join ?r name = consume_spec ?r (g # gs)" using assms(3) sp by simp
  then show ?thesis
    using assms(1) g sp by (cases gs) (simp_all add: consume_spec_def)
qed

section \<open>The claims\<close>

text \<open>
  C1. On every handle and for every well-formed relative path, \<^verbatim>\<open>Open\<close> resolves the
  reference by the segment-consumption rule and goes on with the resolved reference.
  When the handle pins owner and repository, the name is path-joined onto the pinned
  path (for a clean pinned path that is the pinned path, a slash and the name), and
  \<^verbatim>\<open>Open\<close> fetches the content at that reference. Otherwise the segments of the name
  fill the owner, then the repository, and the rest becomes the path, and \<^verbatim>\<open>Open\<close>
  validates that reference and lists the owner's repositories or fetches the content:
  on an unscoped handle a name of one segment lists the repositories of that owner,
  and a longer name fetches the content of its second segment's repository at the
  path of its other segments; on a handle scoped to an owner the first segment is the
  repository. So \<^verbatim>\<open>Open\<close> of \<open>o/r/p\<close> on an unscoped handle is \<^verbatim>\<open>Open\<close> of \<open>p\<close> on the
  handle scoped to \<open>o\<close> and \<open>r\<close>, as for \<open>o/r/sub/file\<close> and \<open>sub/file\<close>; and joining
  \<open>o/r/p\<close> onto the empty reference gives what joining \<open>p\<close> onto the reference pinned
  to \<open>o\<close> and \<open>r\<close> gives.
\<close>

theorem Open_segment_consumption:
  assumes "f \<in> handles" and "ValidPath name"
  shows "(owner (ref f) \<noteq> '''' \<and> repo (ref f) \<noteq> '''' \<longrightarrow>
            join (ref f) name = (ref f)\<lparr>path := Join [path (ref f), name]\<rparr>)
         \<and> (owner (ref f) \<noteq> '''' \<and> repo (ref f) \<noteq> ''''
              \<and> (path (ref f) = '''' \<or> validElems (path (ref f))) \<longrightarrow>
              path (join (ref f) name)
                = (if path (ref f) = '''' then name
                   else if name = ''.'' then path (ref f)
                   else path (ref f) @ ''/'' @ name))
         \<and> (\<not> (owner (ref f) \<noteq> '''' \<and> repo (ref f) \<noteq> '''') \<longrightarrow>
              join (ref f) name
                = consume_spec (ref f) (if name = ''.'' then [] else Split name))
         \<and> (valid_elem own \<and> valid_elem rp \<and> name \<noteq> ''.'' \<longrightarrow>
              join \<lparr>owner = '''', repo = '''', path = ''''\<rparr> (own @ ''/'' @ rp @ ''/'' @ name)
                = join \<lparr>owner = own, repo = rp, path = ''''\<rparr> name)
         \<and> join \<lparr>owner = '''', repo = '''', path = ''''\<rparr> ''o/r/sub/file''
             = join \<lparr>owner = ''o'', repo = ''r'', path = ''''\<rparr> ''sub/file''
         \<and> (owner (ref f) \<noteq> '''' \<and> repo (ref f) \<noteq> '''' \<longrightarrow>
              Open f name w =
                (if path ((ref f)\<lparr>path := Join [path (ref f), name]\<rparr>) \<noteq> ''''
                    \<and> \<not> ValidPath (path ((ref f)\<lparr>path := Join [path (ref f), name]\<rparr>))
                 then Some (Return (Inl (PathError ''open''
                        (path ((ref f)\<lparr>path := Join [path (ref f), name]\<rparr>)) ErrInvalid)), w)
                 else Some (getRepoContent f
                        ((ref f)\<lparr>path := Join [path (ref f), name]\<rparr>) w)))
         \<and> (\<not> (owner (ref f) \<noteq> '''' \<and> repo (ref f) \<noteq> '''') \<longrightarrow>
              Open f name w =
                (case validate
                        (consume_spec (ref f) (if name = ''.'' then [] else Split name))
                        ''open'' of
                   Panic m \<Rightarrow> Some (Panic m, w)
                 | Return (Some err) \<Rightarrow> Some (Return (Inl err), w)
                 | Return None \<Rightarrow>
                     (if repo (consume_spec (ref f)
                                 (if name = ''.'' then [] else Split name)) = ''''
                      then listRepositories f
                             (owner (consume_spec (ref f)
                                       (if name = ''.'' then [] else Split name))) w
                      else Some (getRepoContent f
                             (consume_spec (ref f)
                                (if name = ''.'' then [] else Split name)) w))))
         \<and> (ref f = \<lparr>owner = '''', repo = '''', path = ''''\<rparr> \<and> name \<noteq> ''.'' \<longrightarrow>
              (case Split name of
                 o1 # r1 # rest \<Rightarrow>
                   Open f name w
                     = Some (getRepoContent f
                               \<lparr>owner = o1, repo = r1, path = slash_join rest\<rparr> w)
               | [o1] \<Rightarrow> Open f name w = listRepositories f o1 w
               | [] \<Rightarrow> False))
         \<and> (o2 \<noteq> '''' \<and> ref f = \<lparr>owner = o2, repo = '''', path = ''''\<rparr> \<longrightarrow>
              (if name = ''.'' then Open f name w = listRepositories f o2 w
               else (case Split name of
                       r2 # rest \<Rightarrow>
                         Open f name w
                           = Some (getRepoContent f
                                     \<lparr>owner = o2, repo = r2, path = slash_join rest\<rparr> w)
                     | [] \<Rightarrow> False)))
         \<and> (valid_elem own \<and> valid_elem rp \<and> name \<noteq> ''.''
              \<and> ValidPath (own @ ''/'' @ rp @ ''/'' @ name) \<longrightarrow>
              Open (New nc []) (own @ ''/'' @ rp @ ''/'' @ name) w
                = Some (getRepoContent (New nc [])
                          \<lparr>owner = own, repo = rp, path = name\<rparr> w)
              \<and> Open (New nc [WithRepository own rp]) name w
                = Open (New nc []) (own @ ''/'' @ rp @ ''/'' @ name) w)
         \<and> Open (New nc [WithRepository ''o'' ''r'']) ''sub/file'' w
             = Open (New nc []) ''o/r/sub/file'' w"
proof -
  have po: "path_ok (ref f)" using assms(1) by (rule handles_path_ok)
  have a: "owner (ref f) \<noteq> '''' \<and> repo (ref f) \<noteq> '''' \<longrightarrow>
            join (ref f) name = (ref f)\<lparr>path := Join [path (ref f), name]\<rparr>"
    by (simp add: join_pinned)
  have b: "owner (ref f) \<noteq> '''' \<and> repo (ref f) \<noteq> ''''
              \<and> (path (ref f) = '''' \<or> validElems (path (ref f))) \<longrightarrow>
              path (join (ref f) name)
                = (if path (ref f) = '''' then name
                   else if name = ''.'' then path (ref f)
                   else path (ref f) @ ''/'' @ name)"
    using assms(2) Join_path_name[of "path (ref f)" name] by (simp add: join_pinned)
  have c: "\<not> (owner (ref f) \<noteq> '''' \<and> repo (ref f) \<noteq> '''') \<longrightarrow>
              join (ref f) name
                = consume_spec (ref f) (if name = ''.'' then [] else Split name)"
  proof
    assume un: "\<not> (owner (ref f) \<noteq> '''' \<and> repo (ref f) \<noteq> '''')"
    with po have "path (ref f) = ''''" by (auto simp: path_ok_def)
    with un show "join (ref f) name
                = consume_spec (ref f) (if name = ''.'' then [] else Split name)"
      using assms(2) by (intro join_unpinned)
  qed
  have d: "valid_elem own \<and> valid_elem rp \<and> name \<noteq> ''.'' \<longrightarrow>
              join \<lparr>owner = '''', repo = '''', path = ''''\<rparr> (own @ ''/'' @ rp @ ''/'' @ name)
                = join \<lparr>owner = own, repo = rp, path = ''''\<rparr> name"
    using assms(2) join_full_name[of own rp name] by blast
  have e: "join \<lparr>owner = '''', repo = '''', path = ''''\<rparr> ''o/r/sub/file''
             = join \<lparr>owner = ''o'', repo = ''r'', path = ''''\<rparr> ''sub/file''"
    by code_simp
  have o1: "owner (ref f) \<noteq> '''' \<and> repo (ref f) \<noteq> '''' \<longrightarrow>
              Open f name w =
                (if path ((ref f)\<lparr>path := Join [path (ref f), name]\<rparr>) \<noteq> ''''
                    \<and> \<not> ValidPath (path ((ref f)\<lparr>path := Join [path (ref f), name]\<rparr>))
                 then Some (Return (Inl (PathError ''open''
                        (path ((ref f)\<lparr>path := Join [path (ref f), name]\<rparr>)) ErrInvalid)), w)
                 else Some (getRepoContent f
                        ((ref f)\<lparr>path := Join [path (ref f), name]\<rparr>) w))"
    using Open_pinned[OF assms(2), of f w] by blast
  have o2: "\<not> (owner (ref f) \<noteq> '''' \<and> repo (ref f) \<noteq> '''') \<longrightarrow>
              Open f name w =
                (case validate
                        (consume_spec (ref f) (if name = ''.'' then [] else Split name))
                        ''open'' of
                   Panic m \<Rightarrow> Some (Panic m, w)
                 | Return (Some err) \<Rightarrow> Some (Return (Inl err), w)
                 | Return None \<Rightarrow>
                     (if repo (consume_spec (ref f)
                                 (if name = ''.'' then [] else Split name)) = ''''
                      then listRepositories f
                             (owner (consume_spec (ref f)
                                       (if name = ''.'' then [] else Split name))) w
                      else Some (getRepoContent f
                             (consume_spec (ref f)
                                (if name = ''.'' then [] else Split name)) w)))"
  proof
    assume "\<not> (owner (ref f) \<noteq> '''' \<and> repo (ref f) \<noteq> '''')"
    with c have j: "join (ref f) name
        = consume_spec (ref f) (if name = ''.'' then [] else Split name)"
      by blast
    show "Open f name w =
                (case validate
                        (consume_spec (ref f) (if name = ''.'' then [] else Split name))
                        ''open'' of
                   Panic m \<Rightarrow> Some (Panic m, w)
                 | Return (Some err) \<Rightarrow> Some (Return (Inl err), w)
                 | Return None \<Rightarrow>
                     (if repo (consume_spec (ref f)
                                 (if name = ''.'' then [] else Split name)) = ''''
                      then listRepositories f
                             (owner (consume_spec (ref f)
                                       (if name = ''.'' then [] else Split name))) w
                      else Some (getRepoContent f
                             (consume_spec (ref f)
                                (if name = ''.'' then [] else Split name)) w)))"
      using Open_after_guard[OF assms(2), of f w] unfolding j .
  qed
  have o3: "ref f = \<lparr>owner = '''', repo = '''', path = ''''\<rparr> \<and> name \<noteq> ''.'' \<longrightarrow>
              (case Split name of
                 o1 # r1 # rest \<Rightarrow>
                   Open f name w
                     = Some (getRepoContent f
                               \<lparr>owner = o1, repo = r1, path = slash_join rest\<rparr> w)
               | [o1] \<Rightarrow> Open f name w = listRepositories f o1 w
               | [] \<Rightarrow> False)"
    using Open_unscoped[OF assms(2), of f w] by blast
  have o4: "o2 \<noteq> '''' \<and> ref f = \<lparr>owner = o2, repo = '''', path = ''''\<rparr> \<longrightarrow>
              (if name = ''.'' then Open f name w = listRepositories f o2 w
               else (case Split name of
                       r2 # rest \<Rightarrow>
                         Open f name w
                           = Some (getRepoContent f
                                     \<lparr>owner = o2, repo = r2, path = slash_join rest\<rparr> w)
                     | [] \<Rightarrow> False))"
    using Open_owner_scoped[OF assms(2), of o2 f w] by blast
  have o5: "valid_elem own \<and> valid_elem rp \<and> name \<noteq> ''.''
              \<and> ValidPath (own @ ''/'' @ rp @ ''/'' @ name) \<longrightarrow>
              Open (New nc []) (own @ ''/'' @ rp @ ''/'' @ name) w
                = Some (getRepoContent (New nc [])
                          \<lparr>owner = own, repo = rp, path = name\<rparr> w)
              \<and> Open (New nc [WithRepository own rp]) name w
                = Open (New nc []) (own @ ''/'' @ rp @ ''/'' @ name) w"
    using assms(2) Open_full_name[of own rp name nc w] by simp
  have o6: "Open (New nc [WithRepository ''o'' ''r'']) ''sub/file'' w
             = Open (New nc []) ''o/r/sub/file'' w"
  proof -
    have v1: "valid_elem ''o''" and v2: "valid_elem ''r''" by (simp_all add: valid_elem_def)
    have v3: "ValidPath ''sub/file''" by code_simp
    have v4: "''sub/file'' \<noteq> ''.''" by simp
    have v5: "ValidPath (''o'' @ ''/'' @ ''r'' @ ''/'' @ ''sub/file'')" by code_simp
    from Open_full_name[OF v1 v2 v3 v4 v5, of nc w] show ?thesis by simp
  qed
  from a b c d e o1 o2 o3 o4 o5 o6 show ?thesis by blast
qed

theorem Open_segment_consumption_witness:
  "Open (New example_client []) ''acct/proj/docs/readme.md'' example_world
     = Some (Return (Inr (FileOf
         \<lparr>f_name = ''readme.md'', f_size = 5, f_content = ''hello''\<rparr>)),
        ((), [GetContentsCall ''acct'' ''proj'' ''docs/readme.md'']))
   \<and> join (ref (New example_client [])) ''acct/proj/docs/readme.md''
     = \<lparr>owner = ''acct'', repo = ''proj'', path = ''docs/readme.md''\<rparr>"
proof -
  let ?f = "New example_client []"
  let ?n = "''acct/proj/docs/readme.md''"
  have k: "consume_spec (ref ?f) [''acct'', ''proj'', ''docs'', ''readme.md'']
           = \<lparr>owner = ''acct'', repo = ''proj'', path = ''docs/readme.md''\<rparr>"
    by code_simp
  have h: "?f \<in> handles" by (rule handle_New)
  have v: "ValidPath ?n" by code_simp
  have u: "\<not> (owner (ref ?f) \<noteq> '''' \<and> repo (ref ?f) \<noteq> '''')" by code_simp
  have e: "ref ?f = \<lparr>owner = '''', repo = '''', path = ''''\<rparr>" by (simp add: New_def)
  have nd: "?n \<noteq> ''.''" by simp
  have s: "Split ?n = [''acct'', ''proj'', ''docs'', ''readme.md'']" by code_simp
  have g: "getRepoContent ?f
             \<lparr>owner = ''acct'', repo = ''proj'', path = slash_join [''docs'', ''readme.md'']\<rparr>
             example_world
           = (Return (Inr (FileOf
                \<lparr>f_name = ''readme.md'', f_size = 5, f_content = ''hello''\<rparr>)),
              ((), [GetContentsCall ''acct'' ''proj'' ''docs/readme.md'']))"
    by code_simp
  note t = Open_segment_consumption[OF h v, where w = example_world]
  from t u have "join (ref ?f) ?n
        = consume_spec (ref ?f) (if ?n = ''.'' then [] else Split ?n)"
    by blast
  then have j: "join (ref ?f) ?n
        = \<lparr>owner = ''acct'', repo = ''proj'', path = ''docs/readme.md''\<rparr>"
    using nd by (simp only: s k if_False)
  from t e nd have "(case Split ?n of
                 o1 # r1 # rest \<Rightarrow>
                   Open ?f ?n example_world
                     = Some (getRepoContent ?f
                               \<lparr>owner = o1, repo = r1, path = slash_join rest\<rparr> example_world)
               | [o1] \<Rightarrow> Open ?f ?n example_world = listRepositories ?f o1 example_world
               | [] \<Rightarrow> False)"
    by blast
  then have "Open ?f ?n example_world
        = Some (getRepoContent ?f
                  \<lparr>owner = ''acct'', repo = ''proj'',
                   path = slash_join [''docs'', ''readme.md'']\<rparr> example_world)"
    by (simp only: s list.case)
  then have "Open ?f ?n example_world
     = Some (Return (Inr (FileOf
         \<lparr>f_name = ''readme.md'', f_size = 5, f_content = ''hello''\<rparr>)),
        ((), [GetContentsCall ''acct'' ''proj'' ''docs/readme.md'']))"
    by (simp only: g)
  with j show ?thesis by blast
qed

text \<open>
  C2. The two modes of \<^verbatim>\<open>ReadDir\<close>, for a cursor inside the list. With \<open>n \<le> 0\<close> it
  returns the entries from the cursor to the end, without an error, and moves the
  cursor to the end. With \<open>n > 0\<close> and nothing left it returns no entry and the
  end-of-directory signal. With \<open>n > 0\<close> and entries left it returns the next
  \<open>min n remaining\<close> entries and moves the cursor past them; the signal comes with them
  exactly when the list is now exhausted and \<open>n\<close> was more than their number.
\<close>

theorem ReadDir_contract:
  assumes "0 \<le> offset d" and "offset d \<le> int (length (entries d))"
  shows "(n \<le> 0 \<longrightarrow>
            ReadDir d n = Return ((drop (nat (offset d)) (entries d), None),
                                  d\<lparr>offset := int (length (entries d))\<rparr>))
         \<and> (n > 0 \<and> offset d = int (length (entries d)) \<longrightarrow>
              ReadDir d n = Return (([], Some EOF), d))
         \<and> (n > 0 \<and> offset d < int (length (entries d)) \<longrightarrow>
              ReadDir d n =
                Return ((take (nat (min n (int (length (entries d)) - offset d)))
                           (drop (nat (offset d)) (entries d)),
                         if offset d + min n (int (length (entries d)) - offset d)
                              = int (length (entries d))
                            \<and> n > min n (int (length (entries d)) - offset d)
                         then Some EOF else None),
                        d\<lparr>offset := offset d + min n (int (length (entries d)) - offset d)\<rparr>))"
  using assms ReadDir_all[of d n] ReadDir_end[of d n] ReadDir_some[of d n]
  by blast

theorem ReadDir_contract_witness:
  "ReadDir \<lparr>d_name = ''d'',
            entries = [\<lparr>e_name = ''a'', e_isDir = False, e_size = 1\<rparr>,
                       \<lparr>e_name = ''b'', e_isDir = True, e_size = 0\<rparr>],
            offset = 1\<rparr> 3
   = Return (([\<lparr>e_name = ''b'', e_isDir = True, e_size = 0\<rparr>], Some EOF),
             \<lparr>d_name = ''d'',
              entries = [\<lparr>e_name = ''a'', e_isDir = False, e_size = 1\<rparr>,
                         \<lparr>e_name = ''b'', e_isDir = True, e_size = 0\<rparr>],
              offset = 2\<rparr>)"
  using ReadDir_contract[of "\<lparr>d_name = ''d'',
            entries = [\<lparr>e_name = ''a'', e_isDir = False, e_size = 1\<rparr>,
                       \<lparr>e_name = ''b'', e_isDir = True, e_size = 0\<rparr>],
            offset = 1\<rparr>" 3]
  by simp

text \<open>
  C3. The error translator: a nil error stays nil; an error that is, or wraps, a remote
  API error with status 404 becomes a not-exist error tagged with the operation and the
  path; with status 403 or 401 it becomes a permission error tagged the same way; with
  any other status the error is returned as it is; an error that holds no remote API
  error is returned as it is.
\<close>

theorem handleErr_translation:
  "handleErr None op' p = None
   \<and> (errors_As e = Some 404
        \<longrightarrow> handleErr (Some e) op' p = Some (PathError op' p ErrNotExist))
   \<and> (errors_As e = Some 403 \<or> errors_As e = Some 401
        \<longrightarrow> handleErr (Some e) op' p = Some (PathError op' p ErrPermission))
   \<and> (errors_As e = Some code \<and> code \<noteq> 404 \<and> code \<noteq> 403 \<and> code \<noteq> 401
        \<longrightarrow> handleErr (Some e) op' p = Some e)
   \<and> (errors_As e = None \<longrightarrow> handleErr (Some e) op' p = Some e)"
  by (simp add: handleErr_def)

theorem handleErr_translation_witness:
  "handleErr (Some (ErrorResponse 404)) ''open'' ''/acct/proj/x''
     = Some (PathError ''open'' ''/acct/proj/x'' ErrNotExist)
   \<and> handleErr (Some (wrapError ''get contents'' (ErrorResponse 403))) ''open'' ''/acct''
     = Some (PathError ''open'' ''/acct'' ErrPermission)
   \<and> handleErr (Some (ErrorResponse 401)) ''open'' ''/acct''
     = Some (PathError ''open'' ''/acct'' ErrPermission)
   \<and> handleErr (Some (ErrorResponse 500)) ''open'' ''/acct'' = Some (ErrorResponse 500)
   \<and> handleErr (Some (otherError ''timeout'')) ''open'' ''/acct''
     = Some (otherError ''timeout'')"
  using handleErr_translation[of "''open''" "''/acct/proj/x''" "ErrorResponse 404" 404]
    handleErr_translation[of "''open''" "''/acct''"
      "wrapError ''get contents'' (ErrorResponse 403)" 403]
    handleErr_translation[of "''open''" "''/acct''" "ErrorResponse 401" 401]
    handleErr_translation[of "''open''" "''/acct''" "ErrorResponse 500" 500]
    handleErr_translation[of "''open''" "''/acct''" "otherError ''timeout''" 0]
  by simp




text \<open>
  C5, as amended. On a handle whose reference satisfies the invariant, a well-formed
  name that resolves to a reference without an owner is \<open>.\<close>, and \<^verbatim>\<open>Open\<close> returns,
  without a remote call, the path error with operation \<open>open\<close>, the empty path and the
  cause \<^verbatim>\<open>errors.New("owner is missing")\<close>; that cause is not the not-exist sentinel.
  The empty name is not well-formed: \<^verbatim>\<open>Open("")\<close> returns the invalid-argument error.
\<close>

theorem open_owner_missing:
  assumes "ValidPath name" and "ref_inv (ref f)" and "owner (join (ref f) name) = ''''"
  shows "Open f name w
           = Some (Return (Inl (PathError ''open'' '''' (errorString ''owner is missing''))), w)
         \<and> \<not> errors_Is (PathError ''open'' '''' (errorString ''owner is missing'')) ErrNotExist
         \<and> name = ''.''"
proof -
  have i: "ref_inv (join (ref f) name)" using assms(2,1) by (rule join_inv)
  have "validate (join (ref f) name) ''open''
        = Return (Some (PathError ''open'' '''' (errorString ''owner is missing'')))"
    using i assms(3) by (rule validate_no_owner)
  then have "Open f name w
           = Some (Return (Inl (PathError ''open'' '''' (errorString ''owner is missing''))), w)"
    using assms(1) by (simp add: Open_def Let_def)
  moreover have "name = ''.''" using join_owner_empty[OF assms] by simp
  ultimately show ?thesis by simp
qed

theorem open_owner_missing_witness:
  "Open (New example_client []) ''.'' example_world
   = Some (Return (Inl (PathError ''open'' '''' (errorString ''owner is missing''))),
           example_world)"
proof -
  have v: "ValidPath ''.''" by code_simp
  have i: "ref_inv (ref (New example_client []))" by code_simp
  have o: "owner (join (ref (New example_client [])) ''.'') = ''''" by code_simp
  from open_owner_missing[OF v i o, of example_world] show ?thesis by blast
qed

text \<open>
  The claim as it stands names \<^verbatim>\<open>Open("")\<close> as a case of the missing owner, and calls
  the error a not-found error. On an unscoped handle the empty name is answered by the
  guard of \<^verbatim>\<open>Open\<close>, with the invalid-argument error; \<^verbatim>\<open>Open(".")\<close> is answered with
  the owner-is-missing error, which \<^verbatim>\<open>errors.Is\<close> does not match with the not-exist
  sentinel.
\<close>

theorem open_owner_missing_counterexample:
  "Open (New example_client []) '''' example_world
     = Some (Return (Inl (PathError ''open'' '''' ErrInvalid)), example_world)
   \<and> Open (New example_client []) '''' example_world
     \<noteq> Some (Return (Inl (PathError ''open'' '''' (errorString ''owner is missing''))),
             example_world)
   \<and> Open (New example_client []) ''.'' example_world
     = Some (Return (Inl (PathError ''open'' '''' (errorString ''owner is missing''))),
             example_world)
   \<and> \<not> errors_Is (PathError ''open'' '''' (errorString ''owner is missing'')) ErrNotExist"
  by code_simp

text \<open>
  C6. On a fresh directory handle, \<^verbatim>\<open>ReadDir(3)\<close> called until the end-of-directory
  signal returns the chunks of the specification: their concatenation is the entry
  list, which is what one \<^verbatim>\<open>ReadDir(-1)\<close> on a fresh handle returns; no chunk has
  more than 3 entries; every chunk but the last has 3 entries and no signal; the last
  chunk has fewer than 3 entries, so that more were asked for than remained, and
  carries the signal.
\<close>

theorem ReadDir_chunks_roundtrip:
  "read_until_EOF \<lparr>d_name = nm, entries = es, offset = 0\<rparr> 3
     = Some (Return (chunks_spec 3 es))
   \<and> ReadDir \<lparr>d_name = nm, entries = es, offset = 0\<rparr> (- 1)
     = Return ((es, None), \<lparr>d_name = nm, entries = es, offset = int (length es)\<rparr>)
   \<and> concat (map fst (chunks_spec 3 es)) = es
   \<and> (\<forall>c \<in> set (chunks_spec 3 es). length (fst c) \<le> 3)
   \<and> (\<forall>c \<in> set (butlast (chunks_spec 3 es)). snd c = None \<and> length (fst c) = 3)
   \<and> snd (last (chunks_spec 3 es)) = Some EOF
   \<and> length (fst (last (chunks_spec 3 es))) < 3"
proof -
  let ?d = "\<lparr>d_name = nm, entries = es, offset = 0\<rparr>"
  have "read_until_EOF ?d 3
        = Some (Return (chunks_spec (nat 3) (drop (nat (offset ?d)) (entries ?d))))"
    by (rule read_until_EOF_chunks) simp_all
  then have a: "read_until_EOF ?d 3 = Some (Return (chunks_spec 3 es))"
    by (simp add: eval_nat_numeral)
  have "ReadDir ?d (- 1) = Return ((drop (nat (offset ?d)) (entries ?d), None),
                                  ?d\<lparr>offset := int (length (entries ?d))\<rparr>)"
    by (rule ReadDir_all) simp_all
  then have b: "ReadDir ?d (- 1)
     = Return ((es, None), \<lparr>d_name = nm, entries = es, offset = int (length es)\<rparr>)"
    by simp
  from a b chunks_spec_props[of 3 es] show ?thesis by simp
qed

theorem ReadDir_chunks_roundtrip_witness:
  "read_until_EOF
     \<lparr>d_name = ''d'',
      entries = [\<lparr>e_name = ''a'', e_isDir = False, e_size = 1\<rparr>,
                 \<lparr>e_name = ''b'', e_isDir = False, e_size = 2\<rparr>,
                 \<lparr>e_name = ''c'', e_isDir = True, e_size = 0\<rparr>,
                 \<lparr>e_name = ''d'', e_isDir = False, e_size = 4\<rparr>],
      offset = 0\<rparr> 3
   = Some (Return
       [([\<lparr>e_name = ''a'', e_isDir = False, e_size = 1\<rparr>,
          \<lparr>e_name = ''b'', e_isDir = False, e_size = 2\<rparr>,
          \<lparr>e_name = ''c'', e_isDir = True, e_size = 0\<rparr>], None),
        ([\<lparr>e_name = ''d'', e_isDir = False, e_size = 4\<rparr>], Some EOF)])"
proof -
  let ?es = "[\<lparr>e_name = ''a'', e_isDir = False, e_size = 1\<rparr>,
              \<lparr>e_name = ''b'', e_isDir = False, e_size = 2\<rparr>,
              \<lparr>e_name = ''c'', e_isDir = True, e_size = 0\<rparr>,
              \<lparr>e_name = ''d'', e_isDir = False, e_size = 4\<rparr>]"
  have c: "chunks_spec 3 ?es
           = [([\<lparr>e_name = ''a'', e_isDir = False, e_size = 1\<rparr>,
                \<lparr>e_name = ''b'', e_isDir = False, e_size = 2\<rparr>,
                \<lparr>e_name = ''c'', e_isDir = True, e_size = 0\<rparr>], None),
              ([\<lparr>e_name = ''d'', e_isDir = False, e_size = 4\<rparr>], Some EOF)]"
    by code_simp
  from ReadDir_chunks_roundtrip[of "''d''" ?es]
  have "read_until_EOF \<lparr>d_name = ''d'', entries = ?es, offset = 0\<rparr> 3
        = Some (Return (chunks_spec 3 ?es))"
    by blast
  then show ?thesis by (simp only: c)
qed

text \<open>
  C7. When the resolved reference has an owner and no repository, \<^verbatim>\<open>Open\<close> lists the
  owner's repositories: it asks the remote for page after page, from page 0 with 100
  entries a page, until a page names no next page, and only then returns the
  directory named after the owner, with one entry for each repository of all pages,
  in order, each a directory of size 0 named after its repository.
\<close>

theorem open_owner_lists_repositories:
  assumes "f \<in> handles" and "ValidPath name" and "client f = Some c"
    and "owner (join (ref f) name) \<noteq> ''''" and "repo (join (ref f) name) = ''''"
    and "page_run c (owner (join (ref f) name)) \<lparr>Page = 0, PerPage = 100\<rparr> w repos w'"
  shows "Open f name w
         = Some (Return (Inr (DirOf
             \<lparr>d_name = owner (join (ref f) name),
              entries = map (\<lambda>rp. \<lparr>e_name = repo_GetName rp, e_isDir = True, e_size = 0\<rparr>)
                          repos,
              offset = 0\<rparr>)), w')
         \<and> list_all (\<lambda>e. e_isDir e \<and> e_size e = 0)
             (map (\<lambda>rp. \<lparr>e_name = repo_GetName rp, e_isDir = True, e_size = 0\<rparr>) repos)"
proof -
  let ?r = "join (ref f) name"
  have "path_ok ?r" using handles_path_ok[OF assms(1)] assms(2) by (rule join_path_ok)
  with assms(5) have p: "path ?r = ''''" by (simp add: path_ok_def)
  have v: "validate ?r ''open'' = Return None"
    using assms(4,5) p by (simp add: validate_def)
  have l: "listRepositories_loop c (owner ?r) \<lparr>Page = 0, PerPage = 100\<rparr> [] w
           = Some (Inr ([] @ repos), w')"
    using assms(6) by (rule page_run_loop)
  have "Open f name w = listRepositories f (owner ?r) w"
    using assms(2,5) v by (simp add: Open_def Let_def)
  also have "\<dots> = Some (Return (Inr (DirOf
             \<lparr>d_name = owner ?r,
              entries = map (\<lambda>rp. \<lparr>e_name = repo_GetName rp, e_isDir = True, e_size = 0\<rparr>)
                          repos,
              offset = 0\<rparr>)), w')"
    using assms(3) l by (simp add: listRepositories_def)
  finally show ?thesis by (simp add: list_all_iff)
qed

theorem open_owner_lists_repositories_witness:
  "Open (New example_client []) ''acct'' example_world
   = Some (Return (Inr (DirOf
       \<lparr>d_name = ''acct'',
        entries = [\<lparr>e_name = ''proj'', e_isDir = True, e_size = 0\<rparr>,
                   \<lparr>e_name = ''tool'', e_isDir = True, e_size = 0\<rparr>,
                   \<lparr>e_name = ''site'', e_isDir = True, e_size = 0\<rparr>],
        offset = 0\<rparr>)),
      ((), [ListByUserCall ''acct'' \<lparr>Page = 0, PerPage = 100\<rparr>,
            ListByUserCall ''acct'' \<lparr>Page = 2, PerPage = 100\<rparr>]))"
proof -
  let ?f = "New example_client []"
  let ?w1 = "((), [ListByUserCall ''acct'' \<lparr>Page = 0, PerPage = 100\<rparr>])"
  let ?w2 = "((), [ListByUserCall ''acct'' \<lparr>Page = 0, PerPage = 100\<rparr>,
                   ListByUserCall ''acct'' \<lparr>Page = 2, PerPage = 100\<rparr>])"
  have h: "?f \<in> handles" by (rule handle_New)
  have v: "ValidPath ''acct''" by code_simp
  have c: "client ?f = Some example_client" by (simp add: New_def)
  have j: "join (ref ?f) ''acct'' = \<lparr>owner = ''acct'', repo = '''', path = ''''\<rparr>"
    by code_simp
  have o: "owner (join (ref ?f) ''acct'') \<noteq> ''''" by (simp add: j)
  have r: "repo (join (ref ?f) ''acct'') = ''''" by (simp add: j)
  have p1: "call_ListByUser example_client ''acct'' \<lparr>Page = 0, PerPage = 100\<rparr> example_world
            = (([\<lparr>repo_GetName = ''proj''\<rparr>, \<lparr>repo_GetName = ''tool''\<rparr>],
                \<lparr>NextPage = 2\<rparr>, None), ?w1)"
    by code_simp
  have p2: "call_ListByUser example_client ''acct''
              (\<lparr>Page = 0, PerPage = 100\<rparr>\<lparr>Page := NextPage \<lparr>NextPage = 2\<rparr>\<rparr>) ?w1
            = (([\<lparr>repo_GetName = ''site''\<rparr>], \<lparr>NextPage = 0\<rparr>, None), ?w2)"
    by code_simp
  have q: "page_run example_client ''acct''
          (\<lparr>Page = 0, PerPage = 100\<rparr>\<lparr>Page := NextPage \<lparr>NextPage = 2\<rparr>\<rparr>) ?w1
          [\<lparr>repo_GetName = ''site''\<rparr>] ?w2"
    using p2 by (rule last_page) simp
  have "page_run example_client ''acct'' \<lparr>Page = 0, PerPage = 100\<rparr> example_world
          ([\<lparr>repo_GetName = ''proj''\<rparr>, \<lparr>repo_GetName = ''tool''\<rparr>]
           @ [\<lparr>repo_GetName = ''site''\<rparr>]) ?w2"
    by (rule next_page[OF p1 _ q]) simp
  then have pr: "page_run example_client (owner (join (ref ?f) ''acct''))
          \<lparr>Page = 0, PerPage = 100\<rparr> example_world
          ([\<lparr>repo_GetName = ''proj''\<rparr>, \<lparr>repo_GetName = ''tool''\<rparr>]
           @ [\<lparr>repo_GetName = ''site''\<rparr>]) ?w2"
    by (simp add: j)
  from open_owner_lists_repositories[OF h v c o r pr] show ?thesis by (simp add: j)
qed

text \<open>
  C8. A name that is not a well-formed relative path is refused before any remote
  call: \<^verbatim>\<open>Open\<close> returns the invalid-argument error tagged \<open>open\<close> and the name, in the
  world it was called in, and \<^verbatim>\<open>Sub\<close> returns the one tagged \<open>sub\<close>. The empty name,
  an absolute name, and a name other than \<open>.\<close> with an empty, \<open>.\<close> or \<open>..\<close> segment
  are not well-formed.
\<close>

theorem invalid_name_rejected:
  "(\<not> ValidPath name \<longrightarrow>
      Open f name w = Some (Return (Inl (PathError ''open'' name ErrInvalid)), w)
      \<and> Sub f name = Inl (PathError ''sub'' name ErrInvalid))
   \<and> (name = '''' \<or> hd name = slash
        \<or> (name \<noteq> ''.'' \<and> (\<exists>s \<in> set (Split name). s = '''' \<or> s = ''.'' \<or> s = ''..''))
        \<longrightarrow> \<not> ValidPath name)"
  using not_ValidPath_forms[of name] by (auto simp: Open_def Sub_def)

theorem invalid_name_rejected_witness:
  "Open (New example_client []) ''/acct/proj'' example_world
     = Some (Return (Inl (PathError ''open'' ''/acct/proj'' ErrInvalid)), example_world)
   \<and> Sub (New example_client []) ''/acct/proj'' = Inl (PathError ''sub'' ''/acct/proj'' ErrInvalid)
   \<and> \<not> ValidPath ''acct/../proj''"
proof -
  have a: "hd ''/acct/proj'' = slash" by simp
  have b: "''acct/../proj'' \<noteq> ''.''
           \<and> (\<exists>s \<in> set (Split ''acct/../proj''). s = '''' \<or> s = ''.'' \<or> s = ''..'')"
    by code_simp
  from a invalid_name_rejected[of "''/acct/proj''" "New example_client []" example_world]
  have "Open (New example_client []) ''/acct/proj'' example_world
     = Some (Return (Inl (PathError ''open'' ''/acct/proj'' ErrInvalid)), example_world)
   \<and> Sub (New example_client []) ''/acct/proj'' = Inl (PathError ''sub'' ''/acct/proj'' ErrInvalid)"
    by blast
  moreover from b invalid_name_rejected[of "''acct/../proj''" "New example_client []" example_world]
  have "\<not> ValidPath ''acct/../proj''" by blast
  ultimately show ?thesis by blast
qed

text \<open>
  C9. \<^verbatim>\<open>join\<close> keeps the invariant of a reference: from a base that satisfies it and
  a well-formed relative path it makes a reference that satisfies it, and \<^verbatim>\<open>validate\<close>
  does not panic on that reference.
\<close>

theorem join_preserves_ref_inv:
  assumes "ref_inv r" and "ValidPath name"
  shows "ref_inv (join r name) \<and> validate (join r name) op' \<noteq> Panic m"
  using join_inv[OF assms] validate_Panic_iff[of "join r name" op'] by auto

theorem join_preserves_ref_inv_witness:
  "ref_inv (join \<lparr>owner = ''acct'', repo = '''', path = ''''\<rparr> ''proj/docs'')
   \<and> validate (join \<lparr>owner = ''acct'', repo = '''', path = ''''\<rparr> ''proj/docs'') ''open''
       \<noteq> Panic ''invalid ref: this should never happen''"
proof -
  have i: "ref_inv \<lparr>owner = ''acct'', repo = '''', path = ''''\<rparr>" by (simp add: ref_inv_def)
  have v: "ValidPath ''proj/docs''" by code_simp
  show ?thesis using join_preserves_ref_inv[OF i v] .
qed

text \<open>
  C10, as amended. \<^verbatim>\<open>New\<close> with \<^verbatim>\<open>WithRepository\<close> given an empty owner and a
  non-empty repository builds a handle whose reference breaks the invariant: the
  repository is set and the owner is empty. On that handle \<^verbatim>\<open>Open(".")\<close> panics in
  \<^verbatim>\<open>validate\<close>, without a remote call. Any other well-formed name fills the owner from
  its first segment, and \<^verbatim>\<open>validate\<close> does not panic.
\<close>

theorem WithRepository_without_owner:
  assumes "rp \<noteq> ''''"
  shows "ref (New nc [WithRepository '''' rp]) = \<lparr>owner = '''', repo = rp, path = ''''\<rparr>
         \<and> \<not> ref_inv (ref (New nc [WithRepository '''' rp]))
         \<and> Open (New nc [WithRepository '''' rp]) ''.'' w
             = Some (Panic ''invalid ref: this should never happen'', w)
         \<and> (ValidPath name \<and> name \<noteq> ''.'' \<longrightarrow>
              validate (join (ref (New nc [WithRepository '''' rp])) name) ''open'' \<noteq> Panic m)
         \<and> (ValidPath name \<and> name \<noteq> ''.'' \<longrightarrow>
              owner (join (ref (New nc [WithRepository '''' rp])) name) = hd (Split name)
              \<and> hd (Split name) \<noteq> ''''
              \<and> repo (join (ref (New nc [WithRepository '''' rp])) name) = rp)"
proof -
  let ?f = "New nc [WithRepository '''' rp]"
  have r: "ref ?f = \<lparr>owner = '''', repo = rp, path = ''''\<rparr>"
    using assms by (rule New_WithRepository_no_owner)
  have ni: "\<not> ref_inv (ref ?f)" using assms by (simp add: r ref_inv_def)
  have v: "ValidPath ''.''" by code_simp
  have j: "join (ref ?f) ''.'' = ref ?f" by (simp add: r join_dot_unpinned)
  have p: "validate (ref ?f) ''open'' = Panic ''invalid ref: this should never happen''"
    using assms by (simp add: r validate_def)
  have o: "Open ?f ''.'' w = Some (Panic ''invalid ref: this should never happen'', w)"
    using v j p by (simp add: Open_def Let_def)
  have n: "ValidPath name \<and> name \<noteq> ''.'' \<longrightarrow>
              validate (join (ref ?f) name) ''open'' \<noteq> Panic m"
    using assms join_repo_only[of rp name] validate_Panic_iff[of "join (ref ?f) name" "''open''"]
    by (auto simp: r)
  have q: "ValidPath name \<and> name \<noteq> ''.'' \<longrightarrow>
              owner (join (ref ?f) name) = hd (Split name)
              \<and> hd (Split name) \<noteq> ''''
              \<and> repo (join (ref ?f) name) = rp"
    using assms join_repo_only_fields[of rp name] by (simp add: r)
  from r ni o n q show ?thesis by blast
qed

theorem WithRepository_without_owner_witness:
  "Open (New example_client [WithRepository '''' ''proj'']) ''.'' example_world
   = Some (Panic ''invalid ref: this should never happen'', example_world)"
proof -
  have n: "''proj'' \<noteq> ''''" by simp
  from WithRepository_without_owner[OF n, of example_client example_world]
  show ?thesis by blast
qed

text \<open>
  The claim as it stands has every \<^verbatim>\<open>Open\<close> of a well-formed path panic on such a
  handle. With the repository \<open>proj\<close> pinned and no owner, \<^verbatim>\<open>Open("acct")\<close> resolves
  to \<open>acct/proj\<close>, asks the remote for its contents and returns the directory.
\<close>

theorem WithRepository_without_owner_counterexample:
  "ValidPath ''acct''
   \<and> Open (New example_client [WithRepository '''' ''proj'']) ''acct'' example_world
     = Some (Return (Inr (DirOf
         \<lparr>d_name = ''proj'',
          entries = [\<lparr>e_name = ''docs'', e_isDir = True, e_size = 0\<rparr>,
                     \<lparr>e_name = ''LICENSE'', e_isDir = False, e_size = 1071\<rparr>],
          offset = 0\<rparr>)),
        ((), [GetContentsCall ''acct'' ''proj'' '''']))"
  by code_simp

end
